theory Spec2Isabelle
  imports Main "HOL-Library.Word" "HOL-Library.Multiset"
begin

section \<open>Strings and values of the platform\<close>

text \<open>
  A JavaScript string is a sequence of 16-bit code units. \<open>js\<close> writes a
  literal of the source as such a sequence.
\<close>

type_synonym jchar = "16 word"
type_synonym jstr = "jchar list"

definition js :: "string \<Rightarrow> jstr" where
  "js s = map (\<lambda>c. of_nat (of_char c)) s"

text \<open>
  The values \<open>JSON.parse\<close> can produce. A number is kept as a value of an
  arbitrary type \<open>'n\<close>: the conversion between a number token and an IEEE double
  (and back) is floating-point arithmetic of the platform and is a parameter of the
  parser and of the serialiser below. An object is the list of its own properties in
  property order.
\<close>

datatype 'n jsval =
    JNull
  | JBool bool
  | JNum 'n
  | JStr jstr
  | JArr "'n jsval list"
  | JObj "(jstr \<times> 'n jsval) list"

subsection \<open>\<open>String.prototype.trim\<close>\<close>

text \<open>White space and line terminators of ECMAScript, as \<open>trim\<close> strips them.\<close>

definition is_js_space :: "jchar \<Rightarrow> bool" where
  "is_js_space c \<longleftrightarrow>
     c = 0x09 \<or> c = 0x0A \<or> c = 0x0B \<or> c = 0x0C \<or> c = 0x0D \<or> c = 0x20 \<or>
     c = 0xA0 \<or> c = 0x1680 \<or> (0x2000 \<le> c \<and> c \<le> 0x200A) \<or>
     c = 0x2028 \<or> c = 0x2029 \<or> c = 0x202F \<or> c = 0x205F \<or> c = 0x3000 \<or>
     c = 0xFEFF"

definition trim :: "jstr \<Rightarrow> jstr" where
  "trim s = rev (dropWhile is_js_space (rev (dropWhile is_js_space s)))"

subsection \<open>\<open>JSON.stringify\<close>\<close>

definition is_lead :: "jchar \<Rightarrow> bool" where
  "is_lead c \<longleftrightarrow> 0xD800 \<le> c \<and> c \<le> 0xDBFF"

definition is_trail :: "jchar \<Rightarrow> bool" where
  "is_trail c \<longleftrightarrow> 0xDC00 \<le> c \<and> c \<le> 0xDFFF"

definition hex_digit :: "nat \<Rightarrow> jchar" where
  "hex_digit d = (if d < 10 then of_nat (48 + d) else of_nat (87 + d))"

definition UnicodeEscape :: "jchar \<Rightarrow> jstr" where
  "UnicodeEscape c =
     (let n = unat c
      in [0x5C, 0x75, hex_digit (n div 4096 mod 16), hex_digit (n div 256 mod 16),
          hex_digit (n div 16 mod 16), hex_digit (n mod 16)])"

text \<open>
  One code unit that is not part of a surrogate pair: the two-character escapes of
  the table, a \<open>\u\<close> escape for the other control characters and for a lone
  surrogate, the unit itself otherwise.
\<close>

definition quote_unit :: "jchar \<Rightarrow> jstr" where
  "quote_unit c =
     (if c = 0x08 then [0x5C, 0x62]
      else if c = 0x09 then [0x5C, 0x74]
      else if c = 0x0A then [0x5C, 0x6E]
      else if c = 0x0C then [0x5C, 0x66]
      else if c = 0x0D then [0x5C, 0x72]
      else if c = 0x22 then [0x5C, 0x22]
      else if c = 0x5C then [0x5C, 0x5C]
      else if c < 0x20 \<or> is_lead c \<or> is_trail c then UnicodeEscape c
      else [c])"

fun quote_units :: "jstr \<Rightarrow> jstr" where
  "quote_units (c # d # cs) =
     (if is_lead c \<and> is_trail d then c # d # quote_units cs
      else quote_unit c @ quote_units (d # cs))"
| "quote_units [c] = quote_unit c"
| "quote_units [] = []"

definition QuoteJSONString :: "jstr \<Rightarrow> jstr" where
  "QuoteJSONString s = 0x22 # quote_units s @ [0x22]"

fun join :: "jstr \<Rightarrow> jstr list \<Rightarrow> jstr" where
  "join sep [] = []"
| "join sep [x] = x"
| "join sep (x # y # ys) = x @ sep @ join sep (y # ys)"

text \<open>
  \<open>JSON.stringify(value)\<close> with no replacer and no indentation; \<open>shw\<close> is the
  platform's rendering of a number.
\<close>

fun JSON_stringify :: "('n \<Rightarrow> jstr) \<Rightarrow> 'n jsval \<Rightarrow> jstr" where
  "JSON_stringify shw JNull = js ''null''"
| "JSON_stringify shw (JBool b) = (if b then js ''true'' else js ''false'')"
| "JSON_stringify shw (JNum x) = shw x"
| "JSON_stringify shw (JStr s) = QuoteJSONString s"
| "JSON_stringify shw (JArr vs) =
     0x5B # join [0x2C] (map (JSON_stringify shw) vs) @ [0x5D]"
| "JSON_stringify shw (JObj kvs) =
     0x7B # join [0x2C]
       (map (\<lambda>kv. QuoteJSONString (fst kv) @ 0x3A # JSON_stringify shw (snd kv)) kvs)
     @ [0x7D]"

subsection \<open>\<open>JSON.parse\<close>\<close>

definition is_ws :: "jchar \<Rightarrow> bool" where
  "is_ws c \<longleftrightarrow> c = 0x20 \<or> c = 0x09 \<or> c = 0x0A \<or> c = 0x0D"

definition skip_ws :: "jstr \<Rightarrow> jstr" where
  "skip_ws s = dropWhile is_ws s"

definition is_digit :: "jchar \<Rightarrow> bool" where
  "is_digit c \<longleftrightarrow> 0x30 \<le> c \<and> c \<le> 0x39"

definition hex_value :: "jchar \<Rightarrow> nat option" where
  "hex_value c =
     (if 0x30 \<le> c \<and> c \<le> 0x39 then Some (unat c - 48)
      else if 0x41 \<le> c \<and> c \<le> 0x46 then Some (unat c - 55)
      else if 0x61 \<le> c \<and> c \<le> 0x66 then Some (unat c - 87)
      else None)"

definition hex4 :: "jchar \<Rightarrow> jchar \<Rightarrow> jchar \<Rightarrow> jchar \<Rightarrow> jchar option" where
  "hex4 a b c d =
     (case (hex_value a, hex_value b, hex_value c, hex_value d) of
        (Some p, Some q, Some r, Some s) \<Rightarrow> Some (of_nat (4096 * p + 256 * q + 16 * r + s))
      | _ \<Rightarrow> None)"

definition simple_escape :: "jchar \<Rightarrow> jchar option" where
  "simple_escape e =
     (if e = 0x22 then Some 0x22
      else if e = 0x5C then Some 0x5C
      else if e = 0x2F then Some 0x2F
      else if e = 0x62 then Some 0x08
      else if e = 0x66 then Some 0x0C
      else if e = 0x6E then Some 0x0A
      else if e = 0x72 then Some 0x0D
      else if e = 0x74 then Some 0x09
      else None)"

definition cons_result :: "jchar \<Rightarrow> (jstr \<times> jstr) option \<Rightarrow> (jstr \<times> jstr) option" where
  "cons_result c res = (case res of None \<Rightarrow> None | Some (s, r) \<Rightarrow> Some (c # s, r))"

text \<open>
  The characters of a string token after its opening quote: the decoded string and
  the text after the closing quote, or \<open>None\<close> for a syntax error.
\<close>

fun parse_string_chars :: "jstr \<Rightarrow> (jstr \<times> jstr) option" where
  "parse_string_chars [] = None"
| "parse_string_chars (c # cs) =
     (if c = 0x22 then Some ([], cs)
      else if c = 0x5C then
        (case cs of
           [] \<Rightarrow> None
         | e # r \<Rightarrow>
             if e = 0x75 then
               (case r of
                  h1 # h2 # h3 # h4 # r' \<Rightarrow>
                    (case hex4 h1 h2 h3 h4 of
                       None \<Rightarrow> None
                     | Some u \<Rightarrow> cons_result u (parse_string_chars r'))
                | _ \<Rightarrow> None)
             else
               (case simple_escape e of
                  None \<Rightarrow> None
                | Some u \<Rightarrow> cons_result u (parse_string_chars r)))
      else if c < 0x20 then None
      else cons_result c (parse_string_chars cs))"

text \<open>
  A number token: optional minus, integer part without a leading zero, optional
  fraction, optional exponent. The result is the token and the text after it.
\<close>

definition parse_number :: "jstr \<Rightarrow> (jstr \<times> jstr) option" where
  "parse_number s =
     (let sgn = (case s of c # _ \<Rightarrow> if c = 0x2D then [c] else [] | [] \<Rightarrow> []);
          s1 = drop (length sgn) s;
          ip = takeWhile is_digit s1;
          s2 = dropWhile is_digit s1
      in if ip = [] \<or> (hd ip = 0x30 \<and> length ip > 1) then None
         else
           (let has_frac = (case s2 of c # _ \<Rightarrow> c = 0x2E | [] \<Rightarrow> False);
                fd = (if has_frac then takeWhile is_digit (tl s2) else []);
                fr = (if has_frac then 0x2E # fd else []);
                s3 = drop (length fr) s2
            in if has_frac \<and> fd = [] then None
               else
                 (let has_exp = (case s3 of c # _ \<Rightarrow> c = 0x65 \<or> c = 0x45 | [] \<Rightarrow> False);
                      es = (if has_exp
                            then (case tl s3 of c # _ \<Rightarrow> if c = 0x2B \<or> c = 0x2D then [c] else []
                                  | [] \<Rightarrow> [])
                            else []);
                      ed = (if has_exp then takeWhile is_digit (drop (Suc (length es)) s3) else []);
                      ex = (if has_exp then hd s3 # es @ ed else []);
                      s4 = drop (length ex) s3
                  in if has_exp \<and> ed = [] then None
                     else Some (sgn @ ip @ fr @ ex, s4))))"

text \<open>
  Property order of an ordinary object: the array-index keys first, in ascending
  numeric order, then the other keys in the order they were created; defining a key
  again replaces its value in place.
\<close>

definition index_value :: "jstr \<Rightarrow> int" where
  "index_value k = foldl (\<lambda>a c. 10 * a + (uint c - 48)) 0 k"

definition is_array_index :: "jstr \<Rightarrow> bool" where
  "is_array_index k \<longleftrightarrow>
     k \<noteq> [] \<and> list_all is_digit k \<and> (k = [0x30] \<or> hd k \<noteq> 0x30) \<and>
     index_value k < 4294967295"

definition obj_put :: "jstr \<Rightarrow> 'n jsval \<Rightarrow> (jstr \<times> 'n jsval) list \<Rightarrow> (jstr \<times> 'n jsval) list" where
  "obj_put k v kvs =
     (if k \<in> fst ` set kvs then map (\<lambda>kv. if fst kv = k then (k, v) else kv) kvs
      else if is_array_index k then
        takeWhile (\<lambda>kv. is_array_index (fst kv) \<and> index_value (fst kv) < index_value k) kvs
        @ (k, v) #
        dropWhile (\<lambda>kv. is_array_index (fst kv) \<and> index_value (fst kv) < index_value k) kvs
      else kvs @ [(k, v)])"

text \<open>
  Recursive descent over the text. The first argument \<open>num\<close> converts a number token;
  the second bounds the number of nested calls. \<open>JSON_parse\<close> starts it above twice
  the length of the text, which is enough for every text: a result that some bound
  finds is found with this one (\<open>JSON_parse_iff\<close> below). \<open>None\<close> is the
  \<open>SyntaxError\<close> of the platform.
\<close>

fun parse_value :: "(jstr \<Rightarrow> 'n) \<Rightarrow> nat \<Rightarrow> jstr \<Rightarrow> ('n jsval \<times> jstr) option"
  and parse_elements ::
    "(jstr \<Rightarrow> 'n) \<Rightarrow> nat \<Rightarrow> jstr \<Rightarrow> 'n jsval list \<Rightarrow> ('n jsval \<times> jstr) option"
  and parse_members ::
    "(jstr \<Rightarrow> 'n) \<Rightarrow> nat \<Rightarrow> jstr \<Rightarrow> (jstr \<times> 'n jsval) list \<Rightarrow> ('n jsval \<times> jstr) option"
  where
  "parse_value num 0 s = None"
| "parse_value num (Suc n) s =
     (case skip_ws s of
        [] \<Rightarrow> None
      | c # cs \<Rightarrow>
          if c = 0x7B then
            (case skip_ws cs of
               [] \<Rightarrow> None
             | d # ds \<Rightarrow> if d = 0x7D then Some (JObj [], ds) else parse_members num n (d # ds) [])
          else if c = 0x5B then
            (case skip_ws cs of
               [] \<Rightarrow> None
             | d # ds \<Rightarrow> if d = 0x5D then Some (JArr [], ds) else parse_elements num n (d # ds) [])
          else if c = 0x22 then
            (case parse_string_chars cs of
               None \<Rightarrow> None
             | Some (str, r) \<Rightarrow> Some (JStr str, r))
          else if c = 0x2D \<or> is_digit c then
            (case parse_number (c # cs) of
               None \<Rightarrow> None
             | Some (tok, r) \<Rightarrow> Some (JNum (num tok), r))
          else if take 4 (c # cs) = js ''true'' then Some (JBool True, drop 4 (c # cs))
          else if take 5 (c # cs) = js ''false'' then Some (JBool False, drop 5 (c # cs))
          else if take 4 (c # cs) = js ''null'' then Some (JNull, drop 4 (c # cs))
          else None)"
| "parse_elements num 0 s acc = None"
| "parse_elements num (Suc n) s acc =
     (case parse_value num n s of
        None \<Rightarrow> None
      | Some (v, r) \<Rightarrow>
          (case skip_ws r of
             [] \<Rightarrow> None
           | c # cs \<Rightarrow>
               if c = 0x2C then parse_elements num n cs (acc @ [v])
               else if c = 0x5D then Some (JArr (acc @ [v]), cs)
               else None))"
| "parse_members num 0 s acc = None"
| "parse_members num (Suc n) s acc =
     (case skip_ws s of
        [] \<Rightarrow> None
      | c # cs \<Rightarrow>
          if c = 0x22 then
            (case parse_string_chars cs of
               None \<Rightarrow> None
             | Some (k, r) \<Rightarrow>
                 (case skip_ws r of
                    [] \<Rightarrow> None
                  | d # ds \<Rightarrow>
                      if d = 0x3A then
                        (case parse_value num n ds of
                           None \<Rightarrow> None
                         | Some (v, r') \<Rightarrow>
                             (case skip_ws r' of
                                [] \<Rightarrow> None
                              | e # es \<Rightarrow>
                                  if e = 0x2C then parse_members num n es (obj_put k v acc)
                                  else if e = 0x7D then Some (JObj (obj_put k v acc), es)
                                  else None))
                      else None))
          else None)"

definition JSON_parse :: "(jstr \<Rightarrow> 'n) \<Rightarrow> jstr \<Rightarrow> 'n jsval option" where
  "JSON_parse num s =
     (case parse_value num (Suc (2 * length s)) s of
        None \<Rightarrow> None
      | Some (v, r) \<Rightarrow> if skip_ws r = [] then Some v else None)"

section \<open>The platform around the store\<close>

subsection \<open>\<open>localStorage\<close>\<close>

text \<open>
  The durable key-value store. \<open>setItem\<close> can raise \<open>QuotaExceededError\<close>, which
  \<open>saveTodos\<close> catches; the platform's limit is the field \<open>quota\<close>, a bound on the
  size of the written entry. \<open>setItem_calls\<close> counts the calls of \<open>setItem\<close>, so that
  a state with the same storage has seen no write.
\<close>

record storage =
  items :: "jstr \<rightharpoonup> jstr"
  quota :: nat
  setItem_calls :: nat

datatype setItem_result = Stored storage | QuotaExceededError storage

definition getItem :: "jstr \<Rightarrow> storage \<Rightarrow> jstr option" where
  "getItem k ls = items ls k"

definition setItem :: "jstr \<Rightarrow> jstr \<Rightarrow> storage \<Rightarrow> setItem_result" where
  "setItem k v ls =
     (let ls' = ls\<lparr>setItem_calls := Suc (setItem_calls ls)\<rparr>
      in if length k + length v \<le> quota ls
         then Stored (ls'\<lparr>items := (items ls)(k \<mapsto> v)\<rparr>)
         else QuotaExceededError ls')"

subsection \<open>\<open>Number.prototype.toString\<close> on an integer, \<open>indexOf\<close>, \<open>sort\<close>\<close>

fun digits :: "nat \<Rightarrow> jstr" where
  "digits n = (if n < 10 then [of_nat (48 + n)] else digits (n div 10) @ [of_nat (48 + n mod 10)])"

definition Number_toString :: "int \<Rightarrow> jstr" where
  "Number_toString i = (if i < 0 then 0x2D # digits (nat (- i)) else digits (nat i))"

text \<open>\<open>xs.indexOf(x)\<close>: the first position of \<open>x\<close>, or \<open>-1\<close>.\<close>

fun indexOf :: "'a list \<Rightarrow> 'a \<Rightarrow> int" where
  "indexOf [] x = - 1"
| "indexOf (y # ys) x =
     (if y = x then 0 else (let r = indexOf ys x in if r < 0 then - 1 else r + 1))"

text \<open>
  \<open>xs.sort(cmp)\<close>. The platform's sort is stable, and for a consistent comparison
  function (here a difference of integer keys) the stable sorted arrangement is
  unique; insertion from the right computes it.
\<close>

fun insert_sorted :: "('a \<Rightarrow> 'a \<Rightarrow> int) \<Rightarrow> 'a \<Rightarrow> 'a list \<Rightarrow> 'a list" where
  "insert_sorted cmp x [] = [x]"
| "insert_sorted cmp x (y # ys) =
     (if cmp x y \<le> 0 then x # y # ys else y # insert_sorted cmp x ys)"

definition Array_sort :: "('a \<Rightarrow> 'a \<Rightarrow> int) \<Rightarrow> 'a list \<Rightarrow> 'a list" where
  "Array_sort cmp xs = foldr (insert_sorted cmp) xs []"

section \<open>The task store: class \<open>TodoApp\<close>\<close>

text \<open>A task, as \<open>addTodo\<close> builds it.\<close>

record task =
  id' :: jstr
  text' :: jstr
  completed :: bool
  createdAt :: jstr

text \<open>The object of a task, with its properties in the order of the object literal.\<close>

definition task_json :: "task \<Rightarrow> 'n jsval" where
  "task_json t =
     JObj [(js ''id'', JStr (id' t)), (js ''text'', JStr (text' t)),
           (js ''completed'', JBool (completed t)), (js ''createdAt'', JStr (createdAt t))]"

text \<open>
  The fields of \<open>this\<close> that the store operations read and write. The elements of
  \<open>todos\<close> are tasks for the operations of the store, and arbitrary decoded values
  for \<open>importTodos\<close>, which installs what it decoded. \<open>notifications\<close> is the log
  of the calls of \<open>showNotification\<close> (message, type). The DOM is not part of the
  state: \<open>render\<close> rebuilds it from \<open>todos\<close> and changes no field.
\<close>

record 'e app =
  todos :: "'e list"
  currentFilter :: jstr
  editingId :: "jstr option"
  localStorage :: storage
  notifications :: "(jstr \<times> jstr) list"

definition showNotification :: "jstr \<Rightarrow> jstr \<Rightarrow> 'e app \<Rightarrow> 'e app" where
  "showNotification message type st = st\<lparr>notifications := notifications st @ [(message, type)]\<rparr>"

subsection \<open>Persistence\<close>

text \<open>
  \<open>loadTodos\<close>: the value the constructor stores in \<open>this.todos\<close>. A missing slot
  and an empty text are falsy; a \<open>SyntaxError\<close> of \<open>JSON.parse\<close> is caught.
\<close>

definition loadTodos :: "(jstr \<Rightarrow> 'n) \<Rightarrow> storage \<Rightarrow> 'n jsval" where
  "loadTodos num ls =
     (case getItem (js ''todos'') ls of
        None \<Rightarrow> JArr []
      | Some saved \<Rightarrow>
          if saved \<noteq> [] then (case JSON_parse num saved of None \<Rightarrow> JArr [] | Some v \<Rightarrow> v)
          else JArr [])"

text \<open>\<open>saveTodos\<close>, for a serialiser \<open>enc\<close> of the elements' array.\<close>

definition saveTodos_with :: "('e list \<Rightarrow> jstr) \<Rightarrow> 'e app \<Rightarrow> 'e app" where
  "saveTodos_with enc st =
     (case setItem (js ''todos'') (enc (todos st)) (localStorage st) of
        Stored ls \<Rightarrow> st\<lparr>localStorage := ls\<rparr>
      | QuotaExceededError ls \<Rightarrow>
          showNotification (js ''Error saving tasks!'') (js ''error'') (st\<lparr>localStorage := ls\<rparr>))"

text \<open>
  \<open>JSON.stringify(this.todos)\<close> for an array of tasks. A task holds no number, so
  the rendering of numbers is never applied.
\<close>

definition stringify_tasks :: "task list \<Rightarrow> jstr" where
  "stringify_tasks ts = JSON_stringify (\<lambda>x :: unit. []) (JArr (map task_json ts))"

definition saveTodos :: "task app \<Rightarrow> task app" where
  "saveTodos st = saveTodos_with stringify_tasks st"

text \<open>
  \<open>importTodos\<close>: the \<open>onload\<close> handler applied to the text of the file. \<open>render\<close>
  can raise on a decoded element that it cannot display (\<open>null\<close>, for one); the
  handler's \<open>catch\<close> then reports an error after the array has been installed and
  saved. Whether \<open>render\<close> returns is the argument \<open>rendered\<close>.
\<close>

definition importTodos ::
    "(jstr \<Rightarrow> 'n) \<Rightarrow> ('n \<Rightarrow> jstr) \<Rightarrow> bool \<Rightarrow> jstr \<Rightarrow> 'n jsval app \<Rightarrow> 'n jsval app" where
  "importTodos num shw rendered raw st =
     (case JSON_parse num raw of
        None \<Rightarrow> showNotification (js ''Error importing todos!'') (js ''error'') st
      | Some importedTodos \<Rightarrow>
          (case importedTodos of
             JArr xs \<Rightarrow>
               (let st1 = saveTodos_with (\<lambda>vs. JSON_stringify shw (JArr vs)) (st\<lparr>todos := xs\<rparr>)
                in if rendered
                   then showNotification (js ''Todos imported successfully!'') (js ''success'') st1
                   else showNotification (js ''Error importing todos!'') (js ''error'') st1)
           | _ \<Rightarrow> showNotification (js ''Error importing todos!'') (js ''error'') st))"

text \<open>\<open>t.id\<close> for a decoded element other than \<open>null\<close>: \<open>None\<close> is \<open>undefined\<close>.\<close>

fun prop_id :: "'n jsval \<Rightarrow> 'n jsval option" where
  "prop_id (JObj kvs) = map_of kvs (js ''id'')"
| "prop_id v = None"

text \<open>
  A store of tasks as \<open>importTodos\<close> sees it: the same fields, the tasks as their
  objects.
\<close>

definition untyped :: "task app \<Rightarrow> 'n jsval app" where
  "untyped st =
     \<lparr>todos = map task_json (todos st), currentFilter = currentFilter st,
      editingId = editingId st, localStorage = localStorage st,
      notifications = notifications st\<rparr>"

subsection \<open>Operations on tasks\<close>

text \<open>
  \<open>addTodo\<close>. \<open>now\<close> is the reading of \<open>Date.now()\<close> and \<open>stamp\<close> the text of
  \<open>new Date().toISOString()\<close>.
\<close>

definition addTodo :: "int \<Rightarrow> jstr \<Rightarrow> jstr \<Rightarrow> task app \<Rightarrow> task app" where
  "addTodo now stamp txt st =
     (let todo = \<lparr>id' = Number_toString now, text' = txt, completed = False, createdAt = stamp\<rparr>
      in showNotification (js ''Task added successfully!'') (js ''success'')
           (saveTodos (st\<lparr>todos := todo # todos st\<rparr>)))"

text \<open>\<open>handleSubmit\<close>, with the value of the input box.\<close>

definition handleSubmit :: "int \<Rightarrow> jstr \<Rightarrow> jstr \<Rightarrow> task app \<Rightarrow> task app" where
  "handleSubmit now stamp input_value st =
     (let txt = trim input_value
      in if txt \<noteq> [] then addTodo now stamp txt st else st)"

text \<open>
  The assignment to a field of the object that \<open>find\<close> returned: the first element
  that satisfies the test is replaced in place.
\<close>

fun update_first :: "('a \<Rightarrow> bool) \<Rightarrow> ('a \<Rightarrow> 'a) \<Rightarrow> 'a list \<Rightarrow> 'a list" where
  "update_first P f [] = []"
| "update_first P f (x # xs) = (if P x then f x # xs else x # update_first P f xs)"

definition toggleTodo :: "jstr \<Rightarrow> task app \<Rightarrow> task app" where
  "toggleTodo i st =
     (case find (\<lambda>t. id' t = i) (todos st) of
        None \<Rightarrow> st
      | Some todo \<Rightarrow>
          (let now_completed = \<not> completed todo;
               st1 = saveTodos
                 (st\<lparr>todos := update_first (\<lambda>t. id' t = i) (\<lambda>t. t\<lparr>completed := \<not> completed t\<rparr>)
                                 (todos st)\<rparr>)
           in showNotification
                (if now_completed then js ''Task completed!'' else js ''Task marked as active!'')
                (if now_completed then js ''success'' else js ''info'') st1))"

definition getFilteredTodos :: "task app \<Rightarrow> task list" where
  "getFilteredTodos st =
     (if currentFilter st = js ''active'' then filter (\<lambda>t. \<not> completed t) (todos st)
      else if currentFilter st = js ''completed'' then filter (\<lambda>t. completed t) (todos st)
      else todos st)"

text \<open>
  \<open>deleteTodo\<close>. The list element with this \<open>data-id\<close> exists when a displayed task
  has the id; the body of the timer callback is applied at once.
\<close>

definition deleteTodo_timeout :: "jstr \<Rightarrow> task app \<Rightarrow> task app" where
  "deleteTodo_timeout i st =
     showNotification (js ''Task deleted!'') (js ''info'')
       (saveTodos (st\<lparr>todos := filter (\<lambda>t. id' t \<noteq> i) (todos st)\<rparr>))"

definition deleteTodo :: "jstr \<Rightarrow> task app \<Rightarrow> task app" where
  "deleteTodo i st =
     (if \<exists>t \<in> set (getFilteredTodos st). id' t = i then deleteTodo_timeout i st else st)"

text \<open>
  \<open>finishEdit\<close>, the commit handler that \<open>startEdit(i)\<close> installs, with the value of
  the edit box. Its \<open>todo\<close> is the object that \<open>startEdit\<close> found for the id, an
  element of the array. For an id that no task has, \<open>startEdit\<close> raises before it
  installs a handler, and there is nothing to commit.
\<close>

definition finishEdit :: "jstr \<Rightarrow> jstr \<Rightarrow> task app \<Rightarrow> task app" where
  "finishEdit i input_value st =
     (case find (\<lambda>t. id' t = i) (todos st) of
        None \<Rightarrow> st
      | Some todo \<Rightarrow>
          (let newText = trim input_value;
               st1 = (if newText \<noteq> [] \<and> newText \<noteq> text' todo
                      then showNotification (js ''Task updated!'') (js ''success'')
                             (saveTodos
                                (st\<lparr>todos := update_first (\<lambda>t. id' t = i)
                                                (\<lambda>t. t\<lparr>text' := newText\<rparr>) (todos st)\<rparr>))
                      else st)
           in st1\<lparr>editingId := None\<rparr>))"

definition cancelEdit :: "'e app \<Rightarrow> 'e app" where
  "cancelEdit st = st\<lparr>editingId := None\<rparr>"

text \<open>\<open>clearCompleted\<close>, with the answer of the \<open>confirm\<close> dialogue.\<close>

definition clearCompleted :: "bool \<Rightarrow> task app \<Rightarrow> task app" where
  "clearCompleted confirmed st =
     (let completedCount = length (filter (\<lambda>t. completed t) (todos st))
      in if completedCount = 0 then st
         else if confirmed then
           showNotification
             (Number_toString (int completedCount) @ js '' completed task(s) deleted!'')
             (js ''info'')
             (saveTodos (st\<lparr>todos := filter (\<lambda>t. \<not> completed t) (todos st)\<rparr>))
         else st)"

definition markAllComplete :: "task app \<Rightarrow> task app" where
  "markAllComplete st =
     (let incompleteCount = length (filter (\<lambda>t. \<not> completed t) (todos st))
      in if incompleteCount = 0 then st
         else showNotification (js ''All tasks marked as complete!'') (js ''success'')
                (saveTodos (st\<lparr>todos := map (\<lambda>t. t\<lparr>completed := True\<rparr>) (todos st)\<rparr>)))"

text \<open>
  \<open>handleDrop\<close>. \<open>newOrder\<close> is the list of the \<open>data-id\<close> of the list elements in
  their order in the document.
\<close>

definition handleDrop :: "jstr list \<Rightarrow> task app \<Rightarrow> task app" where
  "handleDrop newOrder st =
     showNotification (js ''Tasks reordered!'') (js ''info'')
       (saveTodos
          (st\<lparr>todos := Array_sort (\<lambda>a b. indexOf newOrder (id' a) - indexOf newOrder (id' b))
                          (todos st)\<rparr>))"

subsection \<open>Example stores\<close>

definition storage0 :: storage where
  "storage0 = \<lparr>items = Map.empty, quota = 5242880, setItem_calls = 0\<rparr>"

definition task_a :: task where
  "task_a = \<lparr>id' = js ''a'', text' = js ''buy milk'', completed = False,
             createdAt = js ''2024-01-01T10:00:00.000Z''\<rparr>"

definition task_b :: task where
  "task_b = \<lparr>id' = js ''b'', text' = js ''call home'', completed = True,
             createdAt = js ''2024-01-02T10:00:00.000Z''\<rparr>"

definition task_c :: task where
  "task_c = \<lparr>id' = js ''c'', text' = js ''write'', completed = False,
             createdAt = js ''2024-01-03T10:00:00.000Z''\<rparr>"

definition store_abc :: "task app" where
  "store_abc = \<lparr>todos = [task_a, task_b, task_c], currentFilter = js ''all'',
                editingId = None, localStorage = storage0, notifications = []\<rparr>"

definition store_no_quota :: "task app" where
  "store_no_quota = store_abc\<lparr>localStorage := storage0\<lparr>quota := 0\<rparr>\<rparr>"

section \<open>Properties of the store\<close>

subsection \<open>Auxiliary facts\<close>

lemma todos_showNotification: "todos (showNotification m ty st) = todos st"
  by (simp add: showNotification_def)

lemma todos_saveTodos_with: "todos (saveTodos_with enc st) = todos st"
  by (simp add: saveTodos_with_def showNotification_def split: setItem_result.split)

lemma todos_saveTodos: "todos (saveTodos st) = todos st"
  by (simp add: saveTodos_def todos_saveTodos_with)

lemma todos_addTodo:
  "todos (addTodo now stamp txt st) =
     \<lparr>id' = Number_toString now, text' = txt, completed = False, createdAt = stamp\<rparr> # todos st"
  by (simp add: addTodo_def todos_showNotification todos_saveTodos)

lemma find_None_update_first: "find P xs = None \<Longrightarrow> update_first P f xs = xs"
  by (induction xs) (auto split: if_splits)

lemma update_first_twice:
  "(\<And>x. P x \<Longrightarrow> P (f x)) \<Longrightarrow> (\<And>x. P x \<Longrightarrow> g (f x) = x) \<Longrightarrow>
     update_first P g (update_first P f xs) = xs"
  by (induction xs) auto

lemma find_update_first:
  "(\<And>x. P x \<Longrightarrow> P (f x)) \<Longrightarrow> find P (update_first P f xs) = map_option f (find P xs)"
  by (induction xs) auto

lemma update_first_nth:
  "find P xs = Some y \<Longrightarrow>
     \<exists>k < length xs. xs ! k = y \<and> P y \<and> (\<forall>j < k. \<not> P (xs ! j)) \<and> update_first P f xs = xs[k := f y]"
proof (induction xs)
  case Nil
  then show ?case by simp
next
  case (Cons x xs)
  show ?case
  proof (cases "P x")
    case True
    with Cons.prems have "x = y" by simp
    with True show ?thesis by (intro exI[of _ 0]) simp
  next
    case False
    with Cons.prems have "find P xs = Some y" by simp
    from Cons.IH[OF this] obtain k where k: "k < length xs" "xs ! k = y" "P y"
      "\<forall>j < k. \<not> P (xs ! j)" "update_first P f xs = xs[k := f y]" by blast
    have "\<forall>j < Suc k. \<not> P ((x # xs) ! j)"
      using False k(4) by (auto simp: less_Suc_eq_0_disj)
    with k False show ?thesis by (intro exI[of _ "Suc k"]) simp
  qed
qed

lemma todos_toggleTodo:
  "todos (toggleTodo i st) =
     update_first (\<lambda>t. id' t = i) (\<lambda>t. t\<lparr>completed := \<not> completed t\<rparr>) (todos st)"
  by (cases "find (\<lambda>t. id' t = i) (todos st)")
     (simp_all add: toggleTodo_def Let_def todos_showNotification todos_saveTodos
        find_None_update_first)


lemma insert_sorted_insort_key:
  "insert_sorted (\<lambda>a b. f a - f b) x xs = insort_key f x xs" for f :: "'a \<Rightarrow> int"
  by (induction xs) auto

lemma Array_sort_sort_key:
  "Array_sort (\<lambda>a b. f a - f b) xs = sort_key f xs" for f :: "'a \<Rightarrow> int"
proof -
  have "insert_sorted (\<lambda>a b. f a - f b) = insort_key f"
    by (intro ext) (rule insert_sorted_insort_key)
  then show ?thesis by (simp add: Array_sort_def sort_key_def)
qed

lemma indexOf_ge: "- 1 \<le> indexOf xs x"
  by (induction xs) (auto simp: Let_def)

lemma indexOf_absent: "indexOf xs x < 0 \<longleftrightarrow> x \<notin> set xs"
  by (induction xs) (use indexOf_ge in \<open>auto simp: Let_def\<close>)

lemma indexOf_absent_eq: "indexOf xs x = - 1 \<longleftrightarrow> x \<notin> set xs"
  using indexOf_absent[of xs x] indexOf_ge[of xs x] by linarith

lemma sorted_map_split:
  "sorted (map f xs) \<Longrightarrow> xs = filter (\<lambda>x. f x < c) xs @ filter (\<lambda>x. \<not> f x < c) xs"
  for f :: "'a \<Rightarrow> int"
proof (induction xs)
  case Nil
  then show ?case by simp
next
  case (Cons x xs)
  then have IH: "xs = filter (\<lambda>x. f x < c) xs @ filter (\<lambda>x. \<not> f x < c) xs"
    and le: "\<forall>y \<in> set xs. f x \<le> f y" by auto
  show ?case
  proof (cases "f x < c")
    case True
    with IH show ?thesis by simp
  next
    case False
    with le have "filter (\<lambda>x. f x < c) xs = []" by (auto simp: filter_empty_conv)
    with False IH show ?thesis by simp
  qed
qed

lemma todos_handleDrop:
  "todos (handleDrop newOrder st) = sort_key (\<lambda>t. indexOf newOrder (id' t)) (todos st)"
  by (simp add: handleDrop_def todos_showNotification todos_saveTodos Array_sort_sort_key)


lemma parse_value_numeral_Suc:
  "parse_value num (numeral k) s = parse_value num (Suc (pred_numeral k)) s"
  by (simp only: numeral_eq_Suc)

lemma parse_elements_numeral_Suc:
  "parse_elements num (numeral k) s acc = parse_elements num (Suc (pred_numeral k)) s acc"
  by (simp only: numeral_eq_Suc)

lemma parse_members_numeral_Suc:
  "parse_members num (numeral k) s acc = parse_members num (Suc (pred_numeral k)) s acc"
  by (simp only: numeral_eq_Suc)

lemmas parse_numeral =
  parse_value_numeral_Suc[unfolded parse_value.simps(2)]
  parse_elements_numeral_Suc[unfolded parse_elements.simps(2)]
  parse_members_numeral_Suc[unfolded parse_members.simps(2)]

lemmas parse_eval =
  parse_numeral JSON_parse_def js_def skip_ws_def is_ws_def is_digit_def parse_number_def
  obj_put_def is_array_index_def index_value_def cons_result_def simple_escape_def hex4_def
  hex_value_def

lemma loadTodos_absent: "getItem (js ''todos'') ls = None \<Longrightarrow> loadTodos num ls = JArr []"
  by (simp add: loadTodos_def)

lemma loadTodos_empty_text: "getItem (js ''todos'') ls = Some [] \<Longrightarrow> loadTodos num ls = JArr []"
  by (simp add: loadTodos_def)

lemma loadTodos_syntax_error:
  "getItem (js ''todos'') ls = Some saved \<Longrightarrow> JSON_parse num saved = None \<Longrightarrow>
     loadTodos num ls = JArr []"
  by (simp add: loadTodos_def)

lemma map_id_update_first:
  "(\<And>x. g (f x) = g x) \<Longrightarrow> map g (update_first P f xs) = map g xs"
  by (induction xs) auto

lemma todos_finishEdit:
  "todos (finishEdit i v st) = todos st \<or>
   todos (finishEdit i v st) = update_first (\<lambda>t. id' t = i) (\<lambda>t. t\<lparr>text' := trim v\<rparr>) (todos st)"
  by (cases "find (\<lambda>t. id' t = i) (todos st)")
     (simp_all add: finishEdit_def Let_def todos_showNotification todos_saveTodos)

lemma todos_deleteTodo:
  "todos (deleteTodo i st) = todos st \<or>
   todos (deleteTodo i st) = filter (\<lambda>t. id' t \<noteq> i) (todos st)"
  by (simp add: deleteTodo_def deleteTodo_timeout_def todos_showNotification todos_saveTodos)

lemma todos_clearCompleted:
  "todos (clearCompleted c st) = todos st \<or>
   todos (clearCompleted c st) = filter (\<lambda>t. \<not> completed t) (todos st)"
  by (simp add: clearCompleted_def Let_def todos_showNotification todos_saveTodos)

lemma todos_markAllComplete:
  "todos (markAllComplete st) = todos st \<or>
   todos (markAllComplete st) = map (\<lambda>t. t\<lparr>completed := True\<rparr>) (todos st)"
  by (simp add: markAllComplete_def Let_def todos_showNotification todos_saveTodos)

lemma distinct_map_sort_key:
  "distinct (map g (sort_key k xs)) \<longleftrightarrow> distinct (map g xs)"
proof -
  have "mset (map g (sort_key k xs)) = mset (map g xs)" by simp
  then show ?thesis by (rule mset_eq_imp_distinct_iff)
qed


subsection \<open>The bound of the parser\<close>

lemmas parse_simps = parse_value.simps parse_elements.simps parse_members.simps

lemma parse_fuel_Suc:
  "(\<forall>s r. parse_value num n s = Some r \<longrightarrow> parse_value num (Suc n) s = Some r) \<and>
   (\<forall>s acc r. parse_elements num n s acc = Some r \<longrightarrow> parse_elements num (Suc n) s acc = Some r) \<and>
   (\<forall>s acc r. parse_members num n s acc = Some r \<longrightarrow> parse_members num (Suc n) s acc = Some r)"
proof (induction n)
  case 0
  show ?case by simp
next
  case (Suc n)
  then have v: "\<And>s r. parse_value num n s = Some r \<Longrightarrow> parse_value num (Suc n) s = Some r"
    and e: "\<And>s acc r. parse_elements num n s acc = Some r \<Longrightarrow>
               parse_elements num (Suc n) s acc = Some r"
    and m: "\<And>s acc r. parse_members num n s acc = Some r \<Longrightarrow>
               parse_members num (Suc n) s acc = Some r"
    by blast+
  have 1: "parse_value num (Suc (Suc n)) s = Some r"
    if h: "parse_value num (Suc n) s = Some r" for s r
  proof -
    from h obtain c cs where s: "skip_ws s = c # cs"
      by (subst (asm) parse_value.simps(2)) (auto split: list.splits simp del: parse_simps)
    consider (obj) "c = 0x7B" | (arr) "c \<noteq> 0x7B" "c = 0x5B" | (other) "c \<noteq> 0x7B" "c \<noteq> 0x5B"
      by blast
    then show ?thesis
    proof cases
      case obj
      from h obtain d ds where cs: "skip_ws cs = d # ds"
        by (subst (asm) parse_value.simps(2))
           (auto simp: s obj split: list.splits simp del: parse_simps)
      show ?thesis
      proof (cases "d = 0x7D")
        case True
        with h show ?thesis
          by (subst parse_value.simps(2), subst (asm) parse_value.simps(2))
             (simp add: s obj cs del: parse_simps)
      next
        case False
        with h have "parse_members num n (d # ds) [] = Some r"
          by (subst (asm) parse_value.simps(2)) (simp add: s obj cs del: parse_simps)
        then have "parse_members num (Suc n) (d # ds) [] = Some r" by (rule m)
        with False show ?thesis
          by (subst parse_value.simps(2)) (simp add: s obj cs del: parse_simps)
      qed
    next
      case arr
      from h obtain d ds where cs: "skip_ws cs = d # ds"
        by (subst (asm) parse_value.simps(2))
           (auto simp: s arr split: list.splits simp del: parse_simps)
      show ?thesis
      proof (cases "d = 0x5D")
        case True
        with h show ?thesis
          by (subst parse_value.simps(2), subst (asm) parse_value.simps(2))
             (simp add: s arr cs del: parse_simps)
      next
        case False
        with h have "parse_elements num n (d # ds) [] = Some r"
          by (subst (asm) parse_value.simps(2)) (simp add: s arr cs del: parse_simps)
        then have "parse_elements num (Suc n) (d # ds) [] = Some r" by (rule e)
        with False show ?thesis
          by (subst parse_value.simps(2)) (simp add: s arr cs del: parse_simps)
      qed
    next
      case other
      with h show ?thesis
        by (subst parse_value.simps(2), subst (asm) parse_value.simps(2))
           (simp add: s del: parse_simps)
    qed
  qed
  have 2: "parse_elements num (Suc (Suc n)) s acc = Some r"
    if h: "parse_elements num (Suc n) s acc = Some r" for s acc r
  proof -
    from h obtain w r1 where w: "parse_value num n s = Some (w, r1)"
      by (subst (asm) parse_elements.simps(2)) (auto split: option.splits simp del: parse_simps)
    have w': "parse_value num (Suc n) s = Some (w, r1)" by (rule v[OF w])
    from h obtain c cs where r1: "skip_ws r1 = c # cs"
      by (subst (asm) parse_elements.simps(2))
         (auto simp: w split: list.splits simp del: parse_simps)
    from h have cases: "(c = 0x2C \<and> parse_elements num n cs (acc @ [w]) = Some r) \<or>
        (c \<noteq> 0x2C \<and> c = 0x5D \<and> r = (JArr (acc @ [w]), cs))"
      by (subst (asm) parse_elements.simps(2))
         (auto simp: w r1 split: if_splits simp del: parse_simps)
    then show ?thesis
    proof
      assume a: "c = 0x2C \<and> parse_elements num n cs (acc @ [w]) = Some r"
      then have "parse_elements num (Suc n) cs (acc @ [w]) = Some r" by (intro e) simp
      with a show ?thesis
        by (subst parse_elements.simps(2)) (simp add: w' r1 del: parse_simps)
    next
      assume "c \<noteq> 0x2C \<and> c = 0x5D \<and> r = (JArr (acc @ [w]), cs)"
      then show ?thesis
        by (subst parse_elements.simps(2)) (simp add: w' r1 del: parse_simps)
    qed
  qed
  have 3: "parse_members num (Suc (Suc n)) s acc = Some r"
    if h: "parse_members num (Suc n) s acc = Some r" for s acc r
  proof -
    from h obtain c cs where s: "skip_ws s = c # cs"
      by (subst (asm) parse_members.simps(2)) (auto split: list.splits simp del: parse_simps)
    from h have c: "c = 0x22"
      by (subst (asm) parse_members.simps(2)) (auto simp: s split: if_splits simp del: parse_simps)
    from h obtain k r0 where k: "parse_string_chars cs = Some (k, r0)"
      by (subst (asm) parse_members.simps(2))
         (auto simp: s c split: option.splits simp del: parse_simps parse_string_chars.simps)
    from h obtain d ds where r0: "skip_ws r0 = d # ds"
      by (subst (asm) parse_members.simps(2))
         (auto simp: s c k split: list.splits simp del: parse_simps parse_string_chars.simps)
    from h have d: "d = 0x3A"
      by (subst (asm) parse_members.simps(2))
         (auto simp: s c k r0 split: if_splits simp del: parse_simps parse_string_chars.simps)
    from h obtain w r1 where w: "parse_value num n ds = Some (w, r1)"
      by (subst (asm) parse_members.simps(2))
         (auto simp: s c k r0 d split: option.splits simp del: parse_simps parse_string_chars.simps)
    have w': "parse_value num (Suc n) ds = Some (w, r1)" by (rule v[OF w])
    from h obtain x xs where r1: "skip_ws r1 = x # xs"
      by (subst (asm) parse_members.simps(2))
         (auto simp: s c k r0 d w split: list.splits simp del: parse_simps parse_string_chars.simps)
    from h have cases: "(x = 0x2C \<and> parse_members num n xs (obj_put k w acc) = Some r) \<or>
        (x \<noteq> 0x2C \<and> x = 0x7D \<and> r = (JObj (obj_put k w acc), xs))"
      by (subst (asm) parse_members.simps(2))
         (auto simp: s c k r0 d w r1 split: if_splits simp del: parse_simps parse_string_chars.simps)
    then show ?thesis
    proof
      assume a: "x = 0x2C \<and> parse_members num n xs (obj_put k w acc) = Some r"
      then have "parse_members num (Suc n) xs (obj_put k w acc) = Some r" by (intro m) simp
      with a show ?thesis
        by (subst parse_members.simps(2))
           (simp add: s c k r0 d w' r1 del: parse_simps parse_string_chars.simps)
    next
      assume "x \<noteq> 0x2C \<and> x = 0x7D \<and> r = (JObj (obj_put k w acc), xs)"
      then show ?thesis
        by (subst parse_members.simps(2))
           (simp add: s c k r0 d w' r1 del: parse_simps parse_string_chars.simps)
    qed
  qed
  from 1 2 3 show ?case by blast
qed

lemma parse_value_fuel_mono:
  "parse_value num n s = Some r \<Longrightarrow> n \<le> m \<Longrightarrow> parse_value num m s = Some r"
proof (induction m)
  case 0
  then show ?case by simp
next
  case (Suc m)
  show ?case
  proof (cases "n = Suc m")
    case True
    with Suc.prems show ?thesis by simp
  next
    case False
    with Suc.prems have "n \<le> m" by simp
    from Suc.IH[OF Suc.prems(1) this] show ?thesis
      using parse_fuel_Suc[of num m] by blast
  qed
qed

lemma parse_fuel_mono:
  "n \<le> m \<Longrightarrow>
   (parse_value num n s = Some r \<longrightarrow> parse_value num m s = Some r) \<and>
   (parse_elements num n s acc = Some r \<longrightarrow> parse_elements num m s acc = Some r) \<and>
   (parse_members num n s kvs = Some r \<longrightarrow> parse_members num m s kvs = Some r)"
proof (induction m)
  case 0
  then show ?case by simp
next
  case (Suc m)
  show ?case
  proof (cases "n = Suc m")
    case True
    then show ?thesis by simp
  next
    case False
    with Suc.prems have "n \<le> m" by simp
    from Suc.IH[OF this] show ?thesis
      using parse_fuel_Suc[of num m] by blast
  qed
qed

lemma skip_ws_length: "skip_ws s = c # cs \<Longrightarrow> length cs < length s"
proof -
  assume a: "skip_ws s = c # cs"
  have "length (skip_ws s) \<le> length s" unfolding skip_ws_def by (rule length_dropWhile_le)
  with a show ?thesis by simp
qed

lemma parse_string_chars_length: "parse_string_chars s = Some (str, r) \<Longrightarrow> length r < length s"
proof (induction "length s" arbitrary: s str r rule: less_induct)
  case less
  from less.prems obtain c cs where s: "s = c # cs" by (cases s) auto
  from less.prems
  have "r = cs \<or> (\<exists>s' a. parse_string_chars s' = Some (a, r) \<and> length s' < length s)"
    unfolding s
    apply (subst (asm) parse_string_chars.simps(2))
    apply (auto split: if_splits list.splits option.splits
        simp: cons_result_def simp del: parse_string_chars.simps)
    done
  then show ?case
  proof
    assume "r = cs"
    then show ?thesis by (simp add: s)
  next
    assume "\<exists>s' a. parse_string_chars s' = Some (a, r) \<and> length s' < length s"
    then obtain s' a where "parse_string_chars s' = Some (a, r)" "length s' < length s" by blast
    with less.hyps[of s' a r] show ?thesis by simp
  qed
qed

lemma parse_number_length: "parse_number s = Some (tok, r) \<Longrightarrow> length r < length s"
proof -
  assume a: "parse_number s = Some (tok, r)"
  define sgn where "sgn = (case s of c # _ \<Rightarrow> if c = 0x2D then [c] else [] | [] \<Rightarrow> [])"
  define s1 where "s1 = drop (length sgn) s"
  define ip where "ip = takeWhile is_digit s1"
  define s2 where "s2 = dropWhile is_digit s1"
  from a have ip: "ip \<noteq> []"
    unfolding parse_number_def sgn_def[symmetric] s1_def[symmetric] ip_def[symmetric]
      s2_def[symmetric] Let_def
    by (auto split: if_splits)
  from a have r: "length r \<le> length s2"
    unfolding parse_number_def sgn_def[symmetric] s1_def[symmetric] ip_def[symmetric]
      s2_def[symmetric] Let_def
    by (auto split: if_splits)
  have "length ip + length s2 = length s1"
    unfolding ip_def s2_def by (metis length_append takeWhile_dropWhile_id)
  with ip have "length s2 < length s1" by (cases ip) auto
  moreover have "length s1 \<le> length s" by (simp add: s1_def)
  ultimately show ?thesis using r by simp
qed

lemma parse_elements_fuel_mono:
  "parse_elements num n s acc = Some r \<Longrightarrow> n \<le> m \<Longrightarrow> parse_elements num m s acc = Some r"
  using parse_fuel_mono[of n m num s r acc] by blast

lemma parse_members_fuel_mono:
  "parse_members num n s kvs = Some r \<Longrightarrow> n \<le> m \<Longrightarrow> parse_members num m s kvs = Some r"
  using parse_fuel_mono[of n m num s r _ kvs] by blast

lemma parse_fuel_bound:
  "(\<forall>s v r. parse_value num n s = Some (v, r) \<longrightarrow>
      length r < length s \<and> parse_value num (2 * (length s - length r)) s = Some (v, r)) \<and>
   (\<forall>s acc v r. parse_elements num n s acc = Some (v, r) \<longrightarrow>
      length r < length s \<and>
      parse_elements num (2 * (length s - length r)) s acc = Some (v, r)) \<and>
   (\<forall>s kvs v r. parse_members num n s kvs = Some (v, r) \<longrightarrow>
      length r < length s \<and>
      parse_members num (2 * (length s - length r)) s kvs = Some (v, r))"
proof (induction n)
  case 0
  show ?case by simp
next
  case (Suc n)
  then have V: "\<And>s v r. parse_value num n s = Some (v, r) \<Longrightarrow>
      length r < length s \<and> parse_value num (2 * (length s - length r)) s = Some (v, r)"
    and E: "\<And>s acc v r. parse_elements num n s acc = Some (v, r) \<Longrightarrow>
      length r < length s \<and>
      parse_elements num (2 * (length s - length r)) s acc = Some (v, r)"
    and M: "\<And>s kvs v r. parse_members num n s kvs = Some (v, r) \<Longrightarrow>
      length r < length s \<and>
      parse_members num (2 * (length s - length r)) s kvs = Some (v, r)"
    by blast+
  have 1: "length r < length s \<and> parse_value num (2 * (length s - length r)) s = Some (v, r)"
    if h: "parse_value num (Suc n) s = Some (v, r)" for s v r
  proof -
    from h obtain c cs where s: "skip_ws s = c # cs"
      by (subst (asm) parse_value.simps(2)) (auto split: list.splits simp del: parse_simps)
    note ls = skip_ws_length[OF s]
    consider (obj) "c = 0x7B" | (arr) "c \<noteq> 0x7B" "c = 0x5B" | (other) "c \<noteq> 0x7B" "c \<noteq> 0x5B"
      by blast
    then show ?thesis
    proof cases
      case obj
      from h obtain d ds where cs: "skip_ws cs = d # ds"
        by (subst (asm) parse_value.simps(2))
           (auto simp: s obj split: list.splits simp del: parse_simps)
      note lcs = skip_ws_length[OF cs]
      show ?thesis
      proof (cases "d = 0x7D")
        case True
        with h have vr: "v = JObj []" "r = ds"
          by (subst (asm) parse_value.simps(2), simp add: s obj cs del: parse_simps)+
        from ls lcs have len: "length r < length s" by (simp add: vr)
        then obtain f where f: "2 * (length s - length r) = Suc f"
          by (cases "2 * (length s - length r)") auto
        show ?thesis
          unfolding f using len True
          by (subst parse_value.simps(2)) (simp add: s obj cs vr del: parse_simps)
      next
        case False
        with h have "parse_members num n (d # ds) [] = Some (v, r)"
          by (subst (asm) parse_value.simps(2)) (simp add: s obj cs del: parse_simps)
        from M[OF this] have lr: "length r < length (d # ds)"
          and pm: "parse_members num (2 * (length (d # ds) - length r)) (d # ds) [] = Some (v, r)"
          by blast+
        from ls lcs lr have len: "length r < length s" by simp
        then obtain f where f: "2 * (length s - length r) = Suc f"
          by (cases "2 * (length s - length r)") auto
        with ls lcs lr have "2 * (length (d # ds) - length r) \<le> f" by simp
        from parse_members_fuel_mono[OF pm this] False len show ?thesis
          unfolding f by (subst parse_value.simps(2)) (simp add: s obj cs del: parse_simps)
      qed
    next
      case arr
      from h obtain d ds where cs: "skip_ws cs = d # ds"
        by (subst (asm) parse_value.simps(2))
           (auto simp: s arr split: list.splits simp del: parse_simps)
      note lcs = skip_ws_length[OF cs]
      show ?thesis
      proof (cases "d = 0x5D")
        case True
        with h have vr: "v = JArr []" "r = ds"
          by (subst (asm) parse_value.simps(2), simp add: s arr cs del: parse_simps)+
        from ls lcs have len: "length r < length s" by (simp add: vr)
        then obtain f where f: "2 * (length s - length r) = Suc f"
          by (cases "2 * (length s - length r)") auto
        show ?thesis
          unfolding f using len True
          by (subst parse_value.simps(2)) (simp add: s arr cs vr del: parse_simps)
      next
        case False
        with h have "parse_elements num n (d # ds) [] = Some (v, r)"
          by (subst (asm) parse_value.simps(2)) (simp add: s arr cs del: parse_simps)
        from E[OF this] have lr: "length r < length (d # ds)"
          and pe: "parse_elements num (2 * (length (d # ds) - length r)) (d # ds) [] = Some (v, r)"
          by blast+
        from ls lcs lr have len: "length r < length s" by simp
        then obtain f where f: "2 * (length s - length r) = Suc f"
          by (cases "2 * (length s - length r)") auto
        with ls lcs lr have "2 * (length (d # ds) - length r) \<le> f" by simp
        from parse_elements_fuel_mono[OF pe this] False len show ?thesis
          unfolding f by (subst parse_value.simps(2)) (simp add: s arr cs del: parse_simps)
      qed
    next
      case other
      from h other have "length r < length (c # cs)"
        by (subst (asm) parse_value.simps(2))
           (auto simp: s split: if_splits option.splits
              dest: parse_string_chars_length parse_number_length
              simp del: parse_simps parse_string_chars.simps)
      with ls have len: "length r < length s" by simp
      then obtain f where f: "2 * (length s - length r) = Suc f"
        by (cases "2 * (length s - length r)") auto
      from h other len show ?thesis
        unfolding f
        by (subst parse_value.simps(2), subst (asm) parse_value.simps(2))
           (simp add: s del: parse_simps parse_string_chars.simps)
    qed
  qed
  have 2: "length r < length s \<and>
      parse_elements num (2 * (length s - length r)) s acc = Some (v, r)"
    if h: "parse_elements num (Suc n) s acc = Some (v, r)" for s acc v r
  proof -
    from h obtain w r1 where w: "parse_value num n s = Some (w, r1)"
      by (subst (asm) parse_elements.simps(2)) (auto split: option.splits simp del: parse_simps)
    from V[OF w] have l1: "length r1 < length s"
      and pv: "parse_value num (2 * (length s - length r1)) s = Some (w, r1)" by blast+
    from h obtain c cs where r1: "skip_ws r1 = c # cs"
      by (subst (asm) parse_elements.simps(2))
         (auto simp: w split: list.splits simp del: parse_simps)
    note l2 = skip_ws_length[OF r1]
    from h have cases: "(c = 0x2C \<and> parse_elements num n cs (acc @ [w]) = Some (v, r)) \<or>
        (c \<noteq> 0x2C \<and> c = 0x5D \<and> v = JArr (acc @ [w]) \<and> r = cs)"
      by (subst (asm) parse_elements.simps(2))
         (auto simp: w r1 split: if_splits simp del: parse_simps)
    then show ?thesis
    proof
      assume a: "c = 0x2C \<and> parse_elements num n cs (acc @ [w]) = Some (v, r)"
      with E[of cs "acc @ [w]" v r] have l3: "length r < length cs"
        and pe: "parse_elements num (2 * (length cs - length r)) cs (acc @ [w]) = Some (v, r)"
        by blast+
      from l1 l2 l3 have len: "length r < length s" by simp
      then obtain f where f: "2 * (length s - length r) = Suc f"
        by (cases "2 * (length s - length r)") auto
      with l1 l2 l3 have "2 * (length s - length r1) \<le> f" "2 * (length cs - length r) \<le> f"
        by simp_all
      from parse_value_fuel_mono[OF pv this(1)] parse_elements_fuel_mono[OF pe this(2)] a len
      show ?thesis
        unfolding f by (subst parse_elements.simps(2)) (simp add: r1 del: parse_simps)
    next
      assume a: "c \<noteq> 0x2C \<and> c = 0x5D \<and> v = JArr (acc @ [w]) \<and> r = cs"
      with l1 l2 have len: "length r < length s" by simp
      then obtain f where f: "2 * (length s - length r) = Suc f"
        by (cases "2 * (length s - length r)") auto
      with l1 l2 a have "2 * (length s - length r1) \<le> f" by simp
      from parse_value_fuel_mono[OF pv this] a len show ?thesis
        unfolding f by (subst parse_elements.simps(2)) (simp add: r1 del: parse_simps)
    qed
  qed
  have 3: "length r < length s \<and>
      parse_members num (2 * (length s - length r)) s kvs = Some (v, r)"
    if h: "parse_members num (Suc n) s kvs = Some (v, r)" for s kvs v r
  proof -
    from h obtain c cs where s: "skip_ws s = c # cs"
      by (subst (asm) parse_members.simps(2)) (auto split: list.splits simp del: parse_simps)
    note l0 = skip_ws_length[OF s]
    from h have c: "c = 0x22"
      by (subst (asm) parse_members.simps(2)) (auto simp: s split: if_splits simp del: parse_simps)
    from h obtain k r0 where k: "parse_string_chars cs = Some (k, r0)"
      by (subst (asm) parse_members.simps(2))
         (auto simp: s c split: option.splits simp del: parse_simps parse_string_chars.simps)
    note lk = parse_string_chars_length[OF k]
    from h obtain d ds where r0: "skip_ws r0 = d # ds"
      by (subst (asm) parse_members.simps(2))
         (auto simp: s c k split: list.splits simp del: parse_simps parse_string_chars.simps)
    note ld = skip_ws_length[OF r0]
    from h have d: "d = 0x3A"
      by (subst (asm) parse_members.simps(2))
         (auto simp: s c k r0 split: if_splits simp del: parse_simps parse_string_chars.simps)
    from h obtain w r1 where w: "parse_value num n ds = Some (w, r1)"
      by (subst (asm) parse_members.simps(2))
         (auto simp: s c k r0 d split: option.splits simp del: parse_simps parse_string_chars.simps)
    from V[OF w] have l1: "length r1 < length ds"
      and pv: "parse_value num (2 * (length ds - length r1)) ds = Some (w, r1)" by blast+
    from h obtain x xs where r1: "skip_ws r1 = x # xs"
      by (subst (asm) parse_members.simps(2))
         (auto simp: s c k r0 d w split: list.splits simp del: parse_simps parse_string_chars.simps)
    note l2 = skip_ws_length[OF r1]
    from h have cases: "(x = 0x2C \<and> parse_members num n xs (obj_put k w kvs) = Some (v, r)) \<or>
        (x \<noteq> 0x2C \<and> x = 0x7D \<and> v = JObj (obj_put k w kvs) \<and> r = xs)"
      by (subst (asm) parse_members.simps(2))
         (auto simp: s c k r0 d w r1 split: if_splits simp del: parse_simps parse_string_chars.simps)
    then show ?thesis
    proof
      assume a: "x = 0x2C \<and> parse_members num n xs (obj_put k w kvs) = Some (v, r)"
      with M[of xs "obj_put k w kvs" v r] have l3: "length r < length xs"
        and pm: "parse_members num (2 * (length xs - length r)) xs (obj_put k w kvs) = Some (v, r)"
        by blast+
      from l0 lk ld l1 l2 l3 have len: "length r < length s" by simp
      then obtain f where f: "2 * (length s - length r) = Suc f"
        by (cases "2 * (length s - length r)") auto
      with l0 lk ld l1 l2 l3 have "2 * (length ds - length r1) \<le> f" "2 * (length xs - length r) \<le> f"
        by simp_all
      from parse_value_fuel_mono[OF pv this(1)] parse_members_fuel_mono[OF pm this(2)] a len
      show ?thesis
        unfolding f
        by (subst parse_members.simps(2))
           (simp add: s c k r0 d r1 del: parse_simps parse_string_chars.simps)
    next
      assume a: "x \<noteq> 0x2C \<and> x = 0x7D \<and> v = JObj (obj_put k w kvs) \<and> r = xs"
      with l0 lk ld l1 l2 have len: "length r < length s" by simp
      then obtain f where f: "2 * (length s - length r) = Suc f"
        by (cases "2 * (length s - length r)") auto
      with l0 lk ld l1 l2 a have "2 * (length ds - length r1) \<le> f" by simp
      from parse_value_fuel_mono[OF pv this] a len show ?thesis
        unfolding f
        by (subst parse_members.simps(2))
           (simp add: s c k r0 d r1 del: parse_simps parse_string_chars.simps)
    qed
  qed
  from 1 2 3 show ?case by blast
qed

text \<open>The bound of \<open>JSON_parse\<close> loses no result: what any bound finds, it finds.\<close>

lemma JSON_parse_complete:
  assumes "parse_value num n s = Some (v, r)" and "skip_ws r = []"
  shows "JSON_parse num s = Some v"
proof -
  from parse_fuel_bound[of num n] assms(1)
  have "parse_value num (2 * (length s - length r)) s = Some (v, r)" by blast
  then have "parse_value num (Suc (2 * length s)) s = Some (v, r)"
    by (rule parse_value_fuel_mono) simp
  with assms(2) show ?thesis by (simp add: JSON_parse_def del: parse_simps)
qed

lemma JSON_parse_iff:
  "JSON_parse num s = Some v \<longleftrightarrow> (\<exists>n r. parse_value num n s = Some (v, r) \<and> skip_ws r = [])"
proof
  assume "JSON_parse num s = Some v"
  then obtain r where "parse_value num (Suc (2 * length s)) s = Some (v, r)" "skip_ws r = []"
    by (auto simp: JSON_parse_def split: option.splits if_splits simp del: parse_simps)
  then show "\<exists>n r. parse_value num n s = Some (v, r) \<and> skip_ws r = []" by blast
next
  assume "\<exists>n r. parse_value num n s = Some (v, r) \<and> skip_ws r = []"
  then show "JSON_parse num s = Some v" by (auto intro: JSON_parse_complete)
qed

subsection \<open>The snapshot is read back\<close>

lemma unat_of_nat16: "n < 65536 \<Longrightarrow> unat (of_nat n :: 16 word) = n"
  by (simp add: unat_of_nat)

lemma unat_hex_digit: "d < 16 \<Longrightarrow> unat (hex_digit d) = (if d < 10 then 48 + d else 87 + d)"
  unfolding hex_digit_def by (simp only: unat_of_nat16 split: if_split) auto

lemma hex_value_hex_digit: "d < 16 \<Longrightarrow> hex_value (hex_digit d) = Some d"
  by (simp add: hex_value_def word_le_nat_alt unat_hex_digit)

lemma hex_digits_value:
  fixes n :: nat
  assumes "n < 65536"
  shows "4096 * (n div 4096 mod 16) + 256 * (n div 256 mod 16) + 16 * (n div 16 mod 16)
           + n mod 16 = n"
proof -
  define x1 where "x1 = n div 16"
  define x2 where "x2 = x1 div 16"
  define x3 where "x3 = x2 div 16"
  have d: "n div 16 = x1" "n div 256 = x2" "n div 4096 = x3"
    by (simp_all add: x1_def x2_def x3_def div_mult2_eq)
  have "x3 < 16" using assms unfolding d(3)[symmetric] by simp
  then have m3: "x3 mod 16 = x3" by simp
  have f1: "16 * x1 + n mod 16 = n" unfolding x1_def by (rule mult_div_mod_eq)
  have f2: "16 * x2 + x1 mod 16 = x1" unfolding x2_def by (rule mult_div_mod_eq)
  have f3: "16 * x3 + x2 mod 16 = x2" unfolding x3_def by (rule mult_div_mod_eq)
  define m0 where "m0 = n mod 16"
  define m1 where "m1 = x1 mod 16"
  define m2 where "m2 = x2 mod 16"
  have "4096 * x3 + 256 * m2 + 16 * m1 + m0 = n"
    using f1 f2 f3 unfolding m0_def[symmetric] m1_def[symmetric] m2_def[symmetric] by linarith
  then show ?thesis by (simp only: d m3 m0_def m1_def m2_def)
qed

lemma hex4_hex_digits:
  "hex4 (hex_digit (unat c div 4096 mod 16)) (hex_digit (unat c div 256 mod 16))
        (hex_digit (unat c div 16 mod 16)) (hex_digit (unat c mod 16)) = Some c"
proof -
  let ?p = "unat c div 4096 mod 16" and ?q = "unat c div 256 mod 16"
  let ?r = "unat c div 16 mod 16" and ?s = "unat c mod 16"
  have lt: "unat c < 65536" using unsigned_less[of c, where ?'a = nat] by simp
  have v: "hex_value (hex_digit ?p) = Some ?p" "hex_value (hex_digit ?q) = Some ?q"
    "hex_value (hex_digit ?r) = Some ?r" "hex_value (hex_digit ?s) = Some ?s"
    by (simp_all add: hex_value_hex_digit)
  have "hex4 (hex_digit ?p) (hex_digit ?q) (hex_digit ?r) (hex_digit ?s) =
          Some (of_nat (4096 * ?p + 256 * ?q + 16 * ?r + ?s))"
    unfolding hex4_def by (simp only: v prod.case option.case)
  also have "4096 * ?p + 256 * ?q + 16 * ?r + ?s = unat c"
    by (rule hex_digits_value[OF lt])
  finally show ?thesis by simp
qed

lemma parse_UnicodeEscape:
  "parse_string_chars (UnicodeEscape c @ t) = cons_result c (parse_string_chars t)"
  by (simp add: UnicodeEscape_def Let_def hex4_hex_digits)

lemma parse_plain_unit:
  "c \<noteq> 0x22 \<Longrightarrow> c \<noteq> 0x5C \<Longrightarrow> \<not> c < 0x20 \<Longrightarrow>
     parse_string_chars (c # t) = cons_result c (parse_string_chars t)"
  by simp

lemma parse_quote_unit:
  "parse_string_chars (quote_unit c @ t) = cons_result c (parse_string_chars t)"
proof -
  consider "c = 0x08" | "c = 0x09" | "c = 0x0A" | "c = 0x0C" | "c = 0x0D" | "c = 0x22"
    | "c = 0x5C"
    | "c \<notin> {0x08, 0x09, 0x0A, 0x0C, 0x0D, 0x22, 0x5C}" "c < 0x20 \<or> is_lead c \<or> is_trail c"
    | "c \<notin> {0x08, 0x09, 0x0A, 0x0C, 0x0D, 0x22, 0x5C}" "\<not> (c < 0x20 \<or> is_lead c \<or> is_trail c)"
    by blast
  then show ?thesis
  proof cases
    case 8
    then have "quote_unit c = UnicodeEscape c" by (simp add: quote_unit_def)
    then show ?thesis by (simp only: parse_UnicodeEscape)
  next
    case 9
    then have "quote_unit c = [c]" by (simp add: quote_unit_def)
    with 9 show ?thesis by (simp add: parse_plain_unit del: parse_string_chars.simps)
  qed (simp_all add: quote_unit_def simple_escape_def)
qed

lemma surrogate_plain:
  "is_lead c \<or> is_trail c \<Longrightarrow> c \<noteq> 0x22 \<and> c \<noteq> 0x5C \<and> \<not> c < 0x20"
  by (auto simp: is_lead_def is_trail_def word_le_nat_alt word_less_nat_alt)

lemma parse_quote_units:
  "parse_string_chars (quote_units s @ 0x22 # rest) = Some (s, rest)"
proof (induction s rule: quote_units.induct)
  case (1 c d cs)
  show ?case
  proof (cases "is_lead c \<and> is_trail d")
    case True
    then have q: "quote_units (c # d # cs) = c # d # quote_units cs" by simp
    from True have pc: "c \<noteq> 0x22" "c \<noteq> 0x5C" "\<not> c < 0x20"
      and pd: "d \<noteq> 0x22" "d \<noteq> 0x5C" "\<not> d < 0x20"
      using surrogate_plain[of c] surrogate_plain[of d] by blast+
    have "parse_string_chars (c # d # quote_units cs @ 0x22 # rest) =
            cons_result c (cons_result d (parse_string_chars (quote_units cs @ 0x22 # rest)))"
      by (simp only: parse_plain_unit[OF pc] parse_plain_unit[OF pd])
    with "1.IH"(1)[OF True] q show ?thesis by (simp add: cons_result_def)
  next
    case False
    then have q: "quote_units (c # d # cs) = quote_unit c @ quote_units (d # cs)"
      by (subst quote_units.simps) (rule if_not_P)
    from "1.IH"(2)[OF False] show ?thesis
      unfolding q by (simp only: append_assoc parse_quote_unit cons_result_def option.case prod.case)
  qed
next
  case (2 c)
  have "parse_string_chars (quote_unit c @ 0x22 # rest) = Some ([c], rest)"
    by (simp only: parse_quote_unit) (simp add: cons_result_def)
  then show ?case by simp
next
  case 3
  show ?case by simp
qed

lemma parse_QuoteJSONString:
  "parse_value num (Suc n) (QuoteJSONString s @ rest) = Some (JStr s, rest)"
  by (simp add: QuoteJSONString_def skip_ws_def is_ws_def parse_quote_units
      del: parse_string_chars.simps)

lemma QuoteJSONString_Cons: "QuoteJSONString s @ rest = 0x22 # quote_units s @ 0x22 # rest"
  by (simp add: QuoteJSONString_def)

lemma skip_ws_plain: "\<not> is_ws c \<Longrightarrow> skip_ws (c # cs) = c # cs"
  by (simp add: skip_ws_def)

lemma parse_bool:
  "parse_value num (Suc n) ((if b then js ''true'' else js ''false'') @ rest) = Some (JBool b, rest)"
  by (simp add: js_def skip_ws_def is_ws_def is_digit_def)

lemma member_string_comma:
  "parse_members num (Suc (Suc n)) (QuoteJSONString k @ 0x3A # QuoteJSONString v @ 0x2C # rest) acc =
     parse_members num (Suc n) rest (obj_put k (JStr v) acc)"
proof -
  have v: "parse_value num (Suc n) (QuoteJSONString v @ 0x2C # rest) = Some (JStr v, 0x2C # rest)"
    by (rule parse_QuoteJSONString)
  show ?thesis
    by (simp add: QuoteJSONString_Cons[of k] parse_quote_units skip_ws_plain is_ws_def v
        del: parse_string_chars.simps parse_value.simps)
qed

lemma member_string_close:
  "parse_members num (Suc (Suc n)) (QuoteJSONString k @ 0x3A # QuoteJSONString v @ 0x7D # rest) acc =
     Some (JObj (obj_put k (JStr v) acc), rest)"
proof -
  have v: "parse_value num (Suc n) (QuoteJSONString v @ 0x7D # rest) = Some (JStr v, 0x7D # rest)"
    by (rule parse_QuoteJSONString)
  show ?thesis
    by (simp add: QuoteJSONString_Cons[of k] parse_quote_units skip_ws_plain is_ws_def v
        del: parse_string_chars.simps parse_value.simps)
qed

lemma member_bool_comma:
  "parse_members num (Suc (Suc n))
     (QuoteJSONString k @ 0x3A # (if b then js ''true'' else js ''false'') @ 0x2C # rest) acc =
     parse_members num (Suc n) rest (obj_put k (JBool b) acc)"
proof -
  have v: "parse_value num (Suc n) ((if b then js ''true'' else js ''false'') @ 0x2C # rest) =
      Some (JBool b, 0x2C # rest)"
    by (rule parse_bool)
  show ?thesis
    by (simp add: QuoteJSONString_Cons[of k] parse_quote_units skip_ws_plain is_ws_def v
        del: parse_string_chars.simps parse_value.simps)
qed

lemma task_properties:
  "obj_put (js ''createdAt'') (JStr d)
     (obj_put (js ''completed'') (JBool c)
       (obj_put (js ''text'') (JStr b) (obj_put (js ''id'') (JStr a) []))) =
   [(js ''id'', JStr a), (js ''text'', JStr b), (js ''completed'', JBool c),
    (js ''createdAt'', JStr d)]"
  by (simp add: obj_put_def js_def is_array_index_def is_digit_def)

lemma stringify_task:
  "JSON_stringify shw (task_json t) @ rest =
     0x7B # QuoteJSONString (js ''id'') @ 0x3A # QuoteJSONString (id' t) @ 0x2C #
       QuoteJSONString (js ''text'') @ 0x3A # QuoteJSONString (text' t) @ 0x2C #
       QuoteJSONString (js ''completed'') @ 0x3A #
         (if completed t then js ''true'' else js ''false'') @ 0x2C #
       QuoteJSONString (js ''createdAt'') @ 0x3A # QuoteJSONString (createdAt t) @ 0x7D # rest"
  by (simp add: task_json_def)

lemma parse_task:
  fixes shw :: "'m \<Rightarrow> jstr" and num :: "jstr \<Rightarrow> 'n"
  shows "parse_value num (Suc (Suc (Suc (Suc (Suc (Suc n))))))
           (JSON_stringify shw (task_json t) @ rest) = Some (task_json t, rest)"
proof -
  have open_brace: "QuoteJSONString (js ''id'') @ r = 0x22 # quote_units (js ''id'') @ 0x22 # r" for r
    by (rule QuoteJSONString_Cons)
  have "parse_value num (Suc (Suc (Suc (Suc (Suc (Suc n)))))) (JSON_stringify shw (task_json t) @ rest) =
      parse_members num (Suc (Suc (Suc (Suc (Suc n)))))
       (QuoteJSONString (js ''id'') @ 0x3A # QuoteJSONString (id' t) @ 0x2C #
        QuoteJSONString (js ''text'') @ 0x3A # QuoteJSONString (text' t) @ 0x2C #
        QuoteJSONString (js ''completed'') @ 0x3A #
          (if completed t then js ''true'' else js ''false'') @ 0x2C #
        QuoteJSONString (js ''createdAt'') @ 0x3A # QuoteJSONString (createdAt t) @ 0x7D # rest) []"
    unfolding stringify_task
    by (subst parse_value.simps) (simp add: open_brace skip_ws_plain is_ws_def
        del: parse_members.simps)
  also have "\<dots> = Some (JObj (obj_put (js ''createdAt'') (JStr (createdAt t))
     (obj_put (js ''completed'') (JBool (completed t))
       (obj_put (js ''text'') (JStr (text' t)) (obj_put (js ''id'') (JStr (id' t)) [])))), rest)"
    by (simp only: member_string_comma member_bool_comma member_string_close)
  also have "\<dots> = Some (task_json t, rest)"
    by (simp only: task_properties task_json_def)
  finally show ?thesis .
qed

lemma parse_task_fuel:
  fixes shw :: "'m \<Rightarrow> jstr" and num :: "jstr \<Rightarrow> 'n"
  assumes "6 \<le> n"
  shows "parse_value num n (JSON_stringify shw (task_json t) @ rest) = Some (task_json t, rest)"
proof -
  from assms have "n = Suc (Suc (Suc (Suc (Suc (Suc (n - 6))))))" by simp
  then show ?thesis using parse_task[of num "n - 6" shw t rest] by simp
qed

lemma parse_task_elements:
  fixes shw :: "'m \<Rightarrow> jstr" and num :: "jstr \<Rightarrow> 'n"
  assumes "ts \<noteq> []" and "length ts + 6 \<le> n"
  shows "parse_elements num n
           (join [0x2C] (map (\<lambda>t. JSON_stringify shw (task_json t)) ts) @ 0x5D # rest) acc =
         Some (JArr (acc @ map task_json ts), rest)"
  using assms
proof (induction ts arbitrary: n acc rule: list_nonempty_induct)
  case (single t)
  then obtain m where n: "n = Suc m" and m: "6 \<le> m" by (cases n) auto
  have "parse_value num m (JSON_stringify shw (task_json t) @ 0x5D # rest) =
      Some (task_json t, 0x5D # rest)"
    by (rule parse_task_fuel[OF m])
  then show ?case
    by (simp add: n skip_ws_plain is_ws_def del: parse_value.simps JSON_stringify.simps)
next
  case (cons t ts)
  then obtain m where n: "n = Suc m" and m: "6 \<le> m" "length ts + 6 \<le> m" by (cases n) auto
  obtain u us where ts: "ts = u # us" using cons.hyps by (cases ts) auto
  have v: "parse_value num m
      (JSON_stringify shw (task_json t) @ 0x2C #
         join [0x2C] (map (\<lambda>t. JSON_stringify shw (task_json t)) ts) @ 0x5D # rest) =
      Some (task_json t, 0x2C #
         join [0x2C] (map (\<lambda>t. JSON_stringify shw (task_json t)) ts) @ 0x5D # rest)"
    by (rule parse_task_fuel[OF m(1)])
  have j: "join [0x2C] (map (\<lambda>t. JSON_stringify shw (task_json t)) (t # ts)) @ 0x5D # rest =
      JSON_stringify shw (task_json t) @ 0x2C #
         join [0x2C] (map (\<lambda>t. JSON_stringify shw (task_json t)) ts) @ 0x5D # rest"
    by (simp add: ts del: JSON_stringify.simps)
  show ?case
    unfolding j n
    by (simp add: v skip_ws_plain is_ws_def cons.IH[OF m(2)]
        del: parse_value.simps JSON_stringify.simps)
qed

lemma join_length:
  "(\<And>x. x \<in> set xs \<Longrightarrow> 2 \<le> length x) \<Longrightarrow> 2 * length xs \<le> length (join sep xs)"
proof (induction sep xs rule: join.induct)
  case (3 sep x y ys)
  then have "2 * length (y # ys) \<le> length (join sep (y # ys))" and "2 \<le> length x"
    by auto
  then show ?case by simp
qed simp_all

lemma stringify_task_length:
  fixes shw :: "'m \<Rightarrow> jstr"
  shows "2 \<le> length (JSON_stringify shw (task_json t))"
  using stringify_task[of shw t "[]"] by (simp add: QuoteJSONString_def)

lemma parse_task_array:
  fixes shw :: "'m \<Rightarrow> jstr" and num :: "jstr \<Rightarrow> 'n"
  shows "JSON_parse num (JSON_stringify shw (JArr (map task_json ts))) =
           Some (JArr (map task_json ts))"
proof (cases ts)
  case Nil
  then show ?thesis
    by (simp add: JSON_parse_def skip_ws_def is_ws_def parse_numeral)
next
  case (Cons t ts')
  let ?S = "\<lambda>t. JSON_stringify shw (task_json t)"
  let ?body = "join [0x2C] (map ?S ts)"
  have rendering: "JSON_stringify shw (JArr (map task_json ts)) = 0x5B # ?body @ [0x5D]"
    by (simp add: comp_def del: JSON_stringify.simps(6))
  have len: "2 * length ts \<le> length ?body"
  proof -
    have "2 \<le> length x" if "x \<in> set (map ?S ts)" for x
      using that stringify_task_length[of shw] by (auto simp del: JSON_stringify.simps)
    from join_length[OF this, of "map ?S ts" "[0x2C]"] show ?thesis by simp
  qed
  have ne: "ts \<noteq> []" using Cons by simp
  then have fuel: "length ts + 6 \<le> 2 * length (0x5B # ?body @ [0x5D])"
    using len by (cases ts) (simp_all del: JSON_stringify.simps join.simps)
  obtain r where first: "?body @ [0x5D] = 0x7B # r"
    using stringify_task[of shw t "[]"] Cons
    by (cases ts') (simp_all del: JSON_stringify.simps)
  have "parse_value num (Suc (2 * length (0x5B # ?body @ [0x5D]))) (0x5B # ?body @ [0x5D]) =
      parse_elements num (2 * length (0x5B # ?body @ [0x5D])) (?body @ [0x5D]) []"
    by (subst parse_value.simps)
       (simp add: first skip_ws_plain is_ws_def del: JSON_stringify.simps join.simps
          parse_elements.simps)
  also have "\<dots> = Some (JArr ([] @ map task_json ts), [])"
    by (rule parse_task_elements[OF ne fuel])
  finally show ?thesis
    unfolding rendering JSON_parse_def by (simp add: skip_ws_def)
qed

lemma stringify_tasks_nonempty: "stringify_tasks ts \<noteq> []"
  by (simp add: stringify_tasks_def)

lemma parse_stringify_tasks:
  "JSON_parse num (stringify_tasks ts) = Some (JArr (map task_json ts))"
  unfolding stringify_tasks_def by (rule parse_task_array)

text \<open>
  Saving a store of tasks writes the text that saving the array of their objects
  writes, whatever the rendering of numbers is.
\<close>

lemma stringify_task_array:
  fixes shw :: "'n \<Rightarrow> jstr"
  shows "JSON_stringify shw (JArr (map task_json ts)) = stringify_tasks ts"
proof -
  have "JSON_stringify shw (task_json t) = JSON_stringify (\<lambda>x :: unit. []) (task_json t)" for t
    using stringify_task[of shw t "[]"] stringify_task[of "\<lambda>x :: unit. []" t "[]"]
    by (simp del: JSON_stringify.simps)
  then show ?thesis
    by (simp add: stringify_tasks_def comp_def del: JSON_stringify.simps(6))
qed

lemma saveTodos_untyped:
  "saveTodos_with (\<lambda>vs. JSON_stringify shw (JArr vs)) (untyped st) = untyped (saveTodos st)"
  by (simp add: saveTodos_def saveTodos_with_def untyped_def showNotification_def
      stringify_task_array split: setItem_result.split del: JSON_stringify.simps)


subsection \<open>Claims\<close>

text \<open>
  Claim C4. When the text of the input box is empty after trimming (\<open>""\<close>,
  \<open>"   "\<close>), adding is a no-op: \<open>handleSubmit\<close> returns the state it was
  given, so the sequence and its length are the same, \<open>setItem\<close> was not called
  and nothing was notified.
\<close>

theorem add_blank_is_noop:
  "trim input_value = [] \<Longrightarrow>
     handleSubmit now stamp input_value st = st \<and>
     todos (handleSubmit now stamp input_value st) = todos st \<and>
     length (todos (handleSubmit now stamp input_value st)) = length (todos st) \<and>
     localStorage (handleSubmit now stamp input_value st) = localStorage st \<and>
     notifications (handleSubmit now stamp input_value st) = notifications st"
  by (simp add: handleSubmit_def)

theorem add_blank_is_noop_witness:
  "trim [] = [] \<and> handleSubmit 1700000000000 (js ''2023-11-14'') [] store_abc = store_abc \<and>
   trim (js ''   '') = [] \<and>
   handleSubmit 1700000000000 (js ''2023-11-14'') (js ''   '') store_abc = store_abc"
proof -
  have e: "trim [] = []" by (simp add: trim_def)
  have b: "trim (js ''   '') = []" by (simp add: trim_def js_def is_js_space_def)
  show ?thesis
    using e b add_blank_is_noop[OF e, of 1700000000000 "js ''2023-11-14''" store_abc]
      add_blank_is_noop[OF b, of 1700000000000 "js ''2023-11-14''" store_abc]
    by simp
qed

text \<open>
  Claim C5. When the text is not empty after trimming, adding makes the sequence
  one longer; the new task is at index 0, with the trimmed text and
  \<open>completed = false\<close>; every task that was at index \<open>k\<close> is at index \<open>k + 1\<close>.
\<close>

theorem add_inserts_at_front:
  "trim input_value \<noteq> [] \<Longrightarrow>
     (let st' = handleSubmit now stamp input_value st;
          new = \<lparr>id' = Number_toString now, text' = trim input_value,
                 completed = False, createdAt = stamp\<rparr>
      in length (todos st') = Suc (length (todos st)) \<and>
         todos st' ! 0 = new \<and> \<not> completed (todos st' ! 0) \<and>
         (\<forall>k < length (todos st). todos st' ! Suc k = todos st ! k) \<and>
         todos st' = new # todos st)"
  by (simp add: handleSubmit_def Let_def todos_addTodo)

theorem add_inserts_at_front_witness:
  "trim (js '' tea '') \<noteq> [] \<and>
   todos (handleSubmit 1700000000000 (js ''2023-11-14'') (js '' tea '') store_abc) =
     [\<lparr>id' = js ''1700000000000'', text' = js ''tea'', completed = False,
       createdAt = js ''2023-11-14''\<rparr>, task_a, task_b, task_c]"
proof -
  have t: "trim (js '' tea '') = js ''tea''" by (simp add: trim_def js_def is_js_space_def)
  then have ne: "trim (js '' tea '') \<noteq> []" by (simp add: js_def)
  have n: "Number_toString 1700000000000 = js ''1700000000000''"
    by (simp add: Number_toString_def js_def)
  from add_inserts_at_front[OF ne, of 1700000000000 "js ''2023-11-14''" store_abc] ne t n
  show ?thesis by (simp add: Let_def store_abc_def)
qed

text \<open>
  Claim C6. Two calls of \<open>toggleTodo\<close> with the same id give back the sequence
  (and with it the \<open>completed\<close> flag of the task); for an id that no task has,
  \<open>toggleTodo\<close> returns the state it was given.
\<close>

theorem toggle_twice_restores:
  "todos (toggleTodo i (toggleTodo i st)) = todos st \<and>
   (i \<notin> id' ` set (todos st) \<longrightarrow> toggleTodo i st = st)"
proof
  show "todos (toggleTodo i (toggleTodo i st)) = todos st"
    by (simp add: todos_toggleTodo update_first_twice)
  show "i \<notin> id' ` set (todos st) \<longrightarrow> toggleTodo i st = st"
  proof
    assume "i \<notin> id' ` set (todos st)"
    then have "find (\<lambda>t. id' t = i) (todos st) = None"
      by (auto simp: find_None_iff)
    then show "toggleTodo i st = st" by (simp add: toggleTodo_def)
  qed
qed

theorem toggle_twice_restores_witness:
  "js ''z'' \<notin> id' ` set (todos store_abc) \<and>
   toggleTodo (js ''z'') store_abc = store_abc \<and>
   todos (toggleTodo (js ''b'') (toggleTodo (js ''b'') store_abc)) = [task_a, task_b, task_c]"
proof -
  have z: "js ''z'' \<notin> id' ` set (todos store_abc)"
    by (simp add: store_abc_def task_a_def task_b_def task_c_def js_def)
  from toggle_twice_restores[of "js ''z''" store_abc]
    toggle_twice_restores[of "js ''b''" store_abc] z
  show ?thesis by (simp add: store_abc_def)
qed

text \<open>
  Claim C7. For a task of the store, a commit whose trimmed text is empty or is
  the task's text leaves the sequence as it is, calls \<open>setItem\<close> not at all,
  notifies nothing and sets \<open>editingId\<close> to \<open>null\<close>.
\<close>

theorem commit_unchanged_text_no_write:
  "find (\<lambda>t. id' t = i) (todos st) = Some todo \<Longrightarrow>
   trim input_value = [] \<or> trim input_value = text' todo \<Longrightarrow>
     finishEdit i input_value st = st\<lparr>editingId := None\<rparr> \<and>
     todos (finishEdit i input_value st) = todos st \<and>
     localStorage (finishEdit i input_value st) = localStorage st \<and>
     notifications (finishEdit i input_value st) = notifications st \<and>
     editingId (finishEdit i input_value st) = None"
  by (auto simp: finishEdit_def Let_def)

theorem commit_unchanged_text_no_write_witness:
  "find (\<lambda>t. id' t = js ''a'') (todos (store_abc\<lparr>editingId := Some (js ''a'')\<rparr>)) = Some task_a \<and>
   trim (js '' buy milk '') = text' task_a \<and>
   finishEdit (js ''a'') (js '' buy milk '') (store_abc\<lparr>editingId := Some (js ''a'')\<rparr>) = store_abc"
proof -
  have f: "find (\<lambda>t. id' t = js ''a'') (todos (store_abc\<lparr>editingId := Some (js ''a'')\<rparr>)) = Some task_a"
    by (simp add: store_abc_def task_a_def)
  have t: "trim (js '' buy milk '') = text' task_a"
    by (simp add: trim_def js_def is_js_space_def task_a_def)
  from commit_unchanged_text_no_write[OF f disjI2, OF t] f t
  show ?thesis by (simp add: store_abc_def)
qed

text \<open>
  Claim C10. For an id that a task has, \<open>toggleTodo\<close> changes the \<open>completed\<close>
  field of the first task with this id and nothing else: the sequence is the old
  one with that one field negated at that one position, so the length, the order,
  and every \<open>id\<close>, \<open>text\<close> and \<open>createdAt\<close> are unchanged.
\<close>

theorem toggle_changes_only_completed:
  "i \<in> id' ` set (todos st) \<Longrightarrow>
     (\<exists>k < length (todos st).
         id' (todos st ! k) = i \<and> (\<forall>j < k. id' (todos st ! j) \<noteq> i) \<and>
         todos (toggleTodo i st) =
           (todos st)[k := (todos st ! k)\<lparr>completed := \<not> completed (todos st ! k)\<rparr>]) \<and>
     length (todos (toggleTodo i st)) = length (todos st) \<and>
     map id' (todos (toggleTodo i st)) = map id' (todos st) \<and>
     map text' (todos (toggleTodo i st)) = map text' (todos st) \<and>
     map createdAt (todos (toggleTodo i st)) = map createdAt (todos st)"
proof -
  assume "i \<in> id' ` set (todos st)"
  then obtain y where y: "find (\<lambda>t. id' t = i) (todos st) = Some y"
    by (cases "find (\<lambda>t. id' t = i) (todos st)") (auto simp: find_None_iff)
  let ?f = "\<lambda>t. t\<lparr>completed := \<not> completed t\<rparr>"
  from update_first_nth[OF y, of ?f] obtain k where k: "k < length (todos st)" "todos st ! k = y"
    "id' y = i" "\<forall>j < k. id' (todos st ! j) \<noteq> i"
    "update_first (\<lambda>t. id' t = i) ?f (todos st) = (todos st)[k := ?f y]" by blast
  have upd: "todos (toggleTodo i st) = (todos st)[k := ?f (todos st ! k)]"
    using k by (simp add: todos_toggleTodo)
  have "map g ((todos st)[k := ?f (todos st ! k)]) = map g (todos st)"
    if "\<And>t. g (?f t) = g t" for g :: "task \<Rightarrow> jstr"
    using that by (simp add: map_update list_update_same_conv k(1))
  then show ?thesis using k upd by auto
qed

theorem toggle_changes_only_completed_witness:
  "js ''b'' \<in> id' ` set (todos store_abc) \<and>
   length (todos (toggleTodo (js ''b'') store_abc)) = 3 \<and>
   map id' (todos (toggleTodo (js ''b'') store_abc)) = [js ''a'', js ''b'', js ''c''] \<and>
   todos (toggleTodo (js ''b'') store_abc) = [task_a, task_b\<lparr>completed := False\<rparr>, task_c]"
proof -
  have m: "js ''b'' \<in> id' ` set (todos store_abc)"
    by (simp add: store_abc_def task_b_def)
  have r: "todos (toggleTodo (js ''b'') store_abc) = [task_a, task_b\<lparr>completed := False\<rparr>, task_c]"
    by (simp add: todos_toggleTodo store_abc_def task_a_def task_b_def js_def)
  from toggle_changes_only_completed[OF m] m r
  show ?thesis by (simp add: store_abc_def task_a_def task_b_def task_c_def)
qed

text \<open>
  Claim C1, amended. After \<open>handleDrop\<close> the sequence is a rearrangement of the old
  one in which the tasks whose id is not in \<open>newOrder\<close> come first
  (\<open>indexOf\<close> is \<open>-1\<close> for them), in their old relative order, followed by the
  tasks whose id is in \<open>newOrder\<close>, arranged by the index of their id in
  \<open>newOrder\<close>; tasks with the same id keep their relative order.
\<close>

theorem reorder_absent_ids_first:
  "(let key = (\<lambda>t. indexOf newOrder (id' t));
        named = (\<lambda>t. id' t \<in> set newOrder);
        ts' = todos (handleDrop newOrder st)
    in mset ts' = mset (todos st) \<and>
       ts' = filter (\<lambda>t. \<not> named t) (todos st) @ filter named ts' \<and>
       sorted (map key (filter named ts')) \<and>
       (\<forall>i. filter (\<lambda>t. id' t = i) ts' = filter (\<lambda>t. id' t = i) (todos st)))"
proof -
  define key where "key = (\<lambda>t :: task. indexOf newOrder (id' t))"
  define named where "named = (\<lambda>t :: task. id' t \<in> set newOrder)"
  define ts' where "ts' = todos (handleDrop newOrder st)"
  have ts': "ts' = sort_key key (todos st)"
    by (simp add: ts'_def key_def todos_handleDrop)
  have named: "named t \<longleftrightarrow> \<not> key t < 0" for t
    by (simp add: named_def key_def indexOf_absent)
  have absent: "\<not> named t \<longleftrightarrow> key t = - 1" for t
    by (simp add: named_def key_def indexOf_absent_eq)
  have m: "mset ts' = mset (todos st)" by (simp add: ts')
  have srt: "sorted (map key ts')" by (simp add: ts')
  have stable: "filter (\<lambda>t. key t = k) ts' = filter (\<lambda>t. key t = k) (todos st)" for k
    unfolding ts' by (rule sort_key_stable)
  have a: "filter (\<lambda>t. \<not> named t) ts' = filter (\<lambda>t. \<not> named t) (todos st)"
    using stable[of "- 1"] by (simp add: absent)
  have "ts' = filter (\<lambda>t. key t < 0) ts' @ filter (\<lambda>t. \<not> key t < 0) ts'"
    by (rule sorted_map_split[OF srt])
  moreover have "filter (\<lambda>t. key t < 0) ts' = filter (\<lambda>t. \<not> named t) ts'"
    and "filter (\<lambda>t. \<not> key t < 0) ts' = filter named ts'"
    by (simp_all add: named cong: filter_cong)
  ultimately have split: "ts' = filter (\<lambda>t. \<not> named t) (todos st) @ filter named ts'"
    using a by simp
  have s2: "sorted (map key (filter named ts'))"
    by (rule sorted_filter[OF srt])
  have same: "filter (\<lambda>t. id' t = i) ts' = filter (\<lambda>t. id' t = i) (todos st)" for i
  proof -
    have "filter (\<lambda>t. id' t = i) xs = filter (\<lambda>t. id' t = i) (filter (\<lambda>t. key t = indexOf newOrder i) xs)"
      for xs
      by (auto simp: key_def intro: filter_cong)
    from this[of ts'] this[of "todos st"] stable[of "indexOf newOrder i"]
    show ?thesis by simp
  qed
  from m split s2 same show ?thesis
    by (simp add: Let_def key_def named_def ts'_def)
qed

text \<open>
  Claim C1 as stated puts the tasks with an absent id last. On the store
  \<open>[a, b, c]\<close> with \<open>newOrder = ["c", "a"]\<close> the task \<open>b\<close> comes first.
\<close>

theorem reorder_absent_last_counterexample:
  "todos (handleDrop [js ''c'', js ''a''] store_abc) = [task_b, task_c, task_a] \<and>
   todos (handleDrop [js ''c'', js ''a''] store_abc) \<noteq> [task_c, task_a, task_b]"
  by (simp add: todos_handleDrop store_abc_def task_a_def task_b_def task_c_def js_def Let_def)

theorem reorder_absent_ids_first_witness:
  "todos (handleDrop [js ''c'', js ''a'', js ''b''] store_abc) = [task_c, task_a, task_b] \<and>
   mset (todos (handleDrop [js ''c'', js ''a'', js ''b''] store_abc)) = mset (todos store_abc)"
  using reorder_absent_ids_first[of "[js ''c'', js ''a'', js ''b'']" store_abc]
  by (simp add: todos_handleDrop store_abc_def task_a_def task_b_def task_c_def js_def Let_def)

text \<open>
  Claim C2, amended. From a sequence in which no two tasks share an id,
  \<open>toggleTodo\<close>, \<open>finishEdit\<close>, \<open>deleteTodo\<close>, \<open>clearCompleted\<close>,
  \<open>markAllComplete\<close> and \<open>handleDrop\<close> lead to such a sequence again. \<open>addTodo\<close>
  gives the new task the decimal text of the clock reading as its id, and leads to
  such a sequence when no task has that id yet. (\<open>importTodos\<close> installs the decoded
  array as it is.)
\<close>

theorem ids_stay_unique:
  "distinct (map id' (todos st)) \<Longrightarrow>
     (Number_toString now \<notin> id' ` set (todos st) \<longrightarrow>
        distinct (map id' (todos (addTodo now stamp txt st))) \<and>
        distinct (map id' (todos (handleSubmit now stamp input_value st)))) \<and>
     id' (todos (addTodo now stamp txt st) ! 0) = Number_toString now \<and>
     distinct (map id' (todos (toggleTodo i st))) \<and>
     distinct (map id' (todos (finishEdit i input_value st))) \<and>
     distinct (map id' (todos (deleteTodo i st))) \<and>
     distinct (map id' (todos (clearCompleted confirmed st))) \<and>
     distinct (map id' (todos (markAllComplete st))) \<and>
     distinct (map id' (todos (handleDrop newOrder st)))"
proof -
  assume d: "distinct (map id' (todos st))"
  have u_add: "distinct (map id' (todos (addTodo now stamp txt st)))"
    if "Number_toString now \<notin> id' ` set (todos st)"
    using that d by (simp add: todos_addTodo)
  have u_sub: "distinct (map id' (todos (handleSubmit now stamp input_value st)))"
    if "Number_toString now \<notin> id' ` set (todos st)"
    using that d by (simp add: handleSubmit_def Let_def todos_addTodo)
  have u_first: "id' (todos (addTodo now stamp txt st) ! 0) = Number_toString now"
    by (simp add: todos_addTodo)
  have u_tog: "distinct (map id' (todos (toggleTodo i st)))"
    using d by (simp add: todos_toggleTodo map_id_update_first)
  have u_fin: "distinct (map id' (todos (finishEdit i input_value st)))"
    using d todos_finishEdit[of i input_value st] by (auto simp: map_id_update_first)
  have u_del: "distinct (map id' (todos (deleteTodo i st)))"
    using d todos_deleteTodo[of i st] by (auto simp: distinct_map_filter)
  have u_clr: "distinct (map id' (todos (clearCompleted confirmed st)))"
    using d todos_clearCompleted[of confirmed st] by (auto simp: distinct_map_filter)
  have u_mark: "distinct (map id' (todos (markAllComplete st)))"
    using d todos_markAllComplete[of st] by (auto simp: comp_def)
  have u_drop: "distinct (map id' (todos (handleDrop newOrder st)))"
    using d by (simp add: todos_handleDrop distinct_map_sort_key)
  from u_add u_sub u_first u_tog u_fin u_del u_clr u_mark u_drop show ?thesis by blast
qed

theorem ids_stay_unique_witness:
  "distinct (map id' (todos store_abc)) \<and>
   Number_toString 1700000000000 \<notin> id' ` set (todos store_abc) \<and>
   distinct (map id' (todos (addTodo 1700000000000 (js ''2023-11-14'') (js ''tea'') store_abc))) \<and>
   distinct (map id' (todos (deleteTodo (js ''b'') store_abc))) \<and>
   distinct (map id' (todos (handleDrop [js ''c'', js ''a''] store_abc)))"
proof -
  have d: "distinct (map id' (todos store_abc))"
    by (simp add: store_abc_def task_a_def task_b_def task_c_def js_def)
  have f: "Number_toString 1700000000000 \<notin> id' ` set (todos store_abc)"
    by (simp add: Number_toString_def store_abc_def task_a_def task_b_def task_c_def js_def)
  from ids_stay_unique[OF d, of 1700000000000 "js ''2023-11-14''" "js ''tea''" "[]" "js ''b''"
      True "[js ''c'', js ''a'']"] d f
  show ?thesis by simp
qed

text \<open>
  Claim C2 as stated has every operation keep the ids unique. Two calls of
  \<open>addTodo\<close> at the same clock reading give two tasks the same id, and
  \<open>importTodos\<close> installs an array in which two elements have the same id.
\<close>

theorem ids_always_unique_counterexample:
  \<open>distinct (map id' (todos store_abc)) \<and>
   \<not> distinct (map id' (todos
        (addTodo 1700000000000 (js ''2023-11-14'') (js ''coffee'')
          (addTodo 1700000000000 (js ''2023-11-14'') (js ''tea'') store_abc)))) \<and>
   \<not> distinct (map prop_id (todos
        (importTodos (\<lambda>_. ()) (\<lambda>_. []) True (js ''[{"id":"1"},{"id":"1"}]'') (untyped store_abc))))\<close>
proof -
  have d: "distinct (map id' (todos store_abc))"
    by (simp add: store_abc_def task_a_def task_b_def task_c_def js_def)
  have a: "\<not> distinct (map id' (todos
        (addTodo 1700000000000 (js ''2023-11-14'') (js ''coffee'')
          (addTodo 1700000000000 (js ''2023-11-14'') (js ''tea'') store_abc))))"
    by (simp add: todos_addTodo)
  have p: \<open>JSON_parse (\<lambda>_. ()) (js ''[{"id":"1"},{"id":"1"}]'') =
      Some (JArr [JObj [(js ''id'', JStr (js ''1''))], JObj [(js ''id'', JStr (js ''1''))]])\<close>
    by (simp add: parse_eval)
  have i: \<open>\<not> distinct (map prop_id (todos
        (importTodos (\<lambda>_. ()) (\<lambda>_. []) True (js ''[{"id":"1"},{"id":"1"}]'') (untyped store_abc))))\<close>
    by (simp add: importTodos_def p Let_def todos_showNotification todos_saveTodos_with)
  from d a i show ?thesis by blast
qed

text \<open>
  Claim C3 at the snapshot \<open>{"a":1}\<close>, and at \<open>true\<close>: \<open>loadTodos\<close> returns the
  decoded object (the decoded scalar), not an empty sequence.
\<close>

theorem loadTodos_returns_decoded_object:
  \<open>loadTodos num (storage0\<lparr>items := [js ''todos'' \<mapsto> js ''{"a":1}'']\<rparr>) =
     JObj [(js ''a'', JNum (num (js ''1'')))] \<and>
   loadTodos num (storage0\<lparr>items := [js ''todos'' \<mapsto> js ''{"a":1}'']\<rparr>) \<noteq> JArr [] \<and>
   loadTodos num (storage0\<lparr>items := [js ''todos'' \<mapsto> js ''true'']\<rparr>) = JBool True\<close>
proof -
  have p: \<open>JSON_parse num (js ''{"a":1}'') = Some (JObj [(js ''a'', JNum (num (js ''1'')))])\<close>
    by (simp add: parse_eval)
  have q: \<open>JSON_parse num (js ''true'') = Some (JBool True)\<close>
    by (simp add: parse_eval)
  have ne: \<open>js ''{"a":1}'' \<noteq> []\<close> "js ''true'' \<noteq> []" by (simp_all add: js_def)
  show ?thesis using p q ne by (simp add: loadTodos_def getItem_def)
qed


text \<open>
  Claim C8, amended. When the snapshot of the sequence fits the quota of the
  storage, \<open>loadTodos\<close> after \<open>saveTodos\<close> returns the array of the tasks' objects,
  in order and with every field; when it does not fit, \<open>setItem\<close> raises, the slot
  keeps its content and \<open>loadTodos\<close> returns what it returned before. The sequence
  in memory is the same in both cases.
\<close>

theorem save_then_load:
  "(length (js ''todos'') + length (stringify_tasks (todos st)) \<le> quota (localStorage st) \<longrightarrow>
      loadTodos num (localStorage (saveTodos st)) = JArr (map task_json (todos st))) \<and>
   (\<not> length (js ''todos'') + length (stringify_tasks (todos st)) \<le> quota (localStorage st) \<longrightarrow>
      loadTodos num (localStorage (saveTodos st)) = loadTodos num (localStorage st)) \<and>
   todos (saveTodos st) = todos st"
  by (simp add: saveTodos_def saveTodos_with_def setItem_def Let_def loadTodos_def getItem_def
      showNotification_def stringify_tasks_nonempty parse_stringify_tasks)

text \<open>
  Claim C8 as stated holds for every sequence. On a storage with no room
  (\<open>quota = 0\<close>) the write of \<open>[a, b, c]\<close> is refused and \<open>loadTodos\<close> returns the
  empty sequence.
\<close>

theorem save_then_load_counterexample:
  "loadTodos (\<lambda>_. ()) (localStorage (saveTodos store_no_quota)) = JArr [] \<and>
   loadTodos (\<lambda>_. ()) (localStorage (saveTodos store_no_quota)) \<noteq>
     JArr (map task_json (todos store_no_quota))"
  by (simp add: store_no_quota_def store_abc_def storage0_def saveTodos_def saveTodos_with_def
      setItem_def Let_def loadTodos_def getItem_def showNotification_def js_def)

theorem save_then_load_witness:
  "length (js ''todos'') + length (stringify_tasks (todos store_abc)) \<le> quota (localStorage store_abc) \<and>
   loadTodos (\<lambda>_. ()) (localStorage (saveTodos store_abc)) =
     JArr [task_json task_a, task_json task_b, task_json task_c] \<and>
   \<not> length (js ''todos'') + length (stringify_tasks (todos store_no_quota))
       \<le> quota (localStorage store_no_quota) \<and>
   loadTodos (\<lambda>_. ()) (localStorage (saveTodos store_no_quota)) = JArr []"
proof -
  have fits: "length (js ''todos'') + length (stringify_tasks (todos store_abc))
      \<le> quota (localStorage store_abc)"
    by (simp add: store_abc_def storage0_def stringify_tasks_def task_json_def task_a_def
        task_b_def task_c_def js_def QuoteJSONString_def quote_unit_def is_lead_def is_trail_def)
  have full: "\<not> length (js ''todos'') + length (stringify_tasks (todos store_no_quota))
      \<le> quota (localStorage store_no_quota)"
    by (simp add: store_no_quota_def storage0_def js_def)
  have before: "loadTodos (\<lambda>_. ()) (localStorage store_no_quota) = (JArr [] :: unit jsval)"
    by (simp add: store_no_quota_def storage0_def loadTodos_def getItem_def)
  from save_then_load[of store_abc "\<lambda>_. ()"] save_then_load[of store_no_quota "\<lambda>_. ()"]
    fits full before
  show ?thesis by (simp add: store_abc_def)
qed

text \<open>
  Claim C9. When the text parses to an array, \<open>importTodos\<close> makes that array the
  sequence, element for element and in order, whatever the elements are.
\<close>

theorem import_installs_decoded_array:
  "JSON_parse num raw = Some (JArr xs) \<Longrightarrow>
     todos (importTodos num shw rendered raw st) = xs"
  by (simp add: importTodos_def Let_def todos_showNotification todos_saveTodos_with)

theorem import_installs_decoded_array_witness:
  \<open>JSON_parse (\<lambda>_. ()) (js ''[{"id":"1"},{"id":"1","done":7},null,"x"]'') =
     Some (JArr [JObj [(js ''id'', JStr (js ''1''))],
                 JObj [(js ''id'', JStr (js ''1'')), (js ''done'', JNum ())], JNull,
                 JStr (js ''x'')]) \<and>
   todos (importTodos (\<lambda>_. ()) (\<lambda>_. []) False
            (js ''[{"id":"1"},{"id":"1","done":7},null,"x"]'') (untyped store_abc)) =
     [JObj [(js ''id'', JStr (js ''1''))],
      JObj [(js ''id'', JStr (js ''1'')), (js ''done'', JNum ())], JNull, JStr (js ''x'')]\<close>
proof -
  have p: \<open>JSON_parse (\<lambda>_. ()) (js ''[{"id":"1"},{"id":"1","done":7},null,"x"]'') =
     Some (JArr [JObj [(js ''id'', JStr (js ''1''))],
                 JObj [(js ''id'', JStr (js ''1'')), (js ''done'', JNum ())], JNull,
                 JStr (js ''x'')])\<close>
    by (simp add: parse_eval)
  from import_installs_decoded_array[OF p, of "\<lambda>_. []" False "untyped store_abc"] p
  show ?thesis by simp
qed

end
